theory Spec2Isabelle
  imports Main
begin

section \<open>Error values (base/error.h, base/error.cc)\<close>

text \<open>
  \<^verbatim>\<open>Error\<close> carries a category pointer (nullable), an \<^verbatim>\<open>int\<close> code and an
  optional message. Categories are static singletons compared by address; the model
  names them by a datatype and writes the null pointer as \<open>None\<close>.
\<close>

datatype Category =
    BoostErrorCategory
  | SyscallErrorCategory
  | GeneralErrorCategory string
  | EventCategory

record Error =
  err_code :: int
  err_category :: "Category option"
  err_message :: "string option"

definition kNoErrorCode :: int where
  "kNoErrorCode = 0"

text \<open>The four constructors of \<^verbatim>\<open>Error\<close>: default, and category with code, with or
  without a message.\<close>

definition Error_default :: Error where
  "Error_default = \<lparr>err_code = kNoErrorCode, err_category = None, err_message = None\<rparr>"

definition Error_code :: "Category \<Rightarrow> int \<Rightarrow> Error" where
  "Error_code cat c = \<lparr>err_code = c, err_category = Some cat, err_message = None\<rparr>"

definition Error_msg :: "Category \<Rightarrow> int \<Rightarrow> string \<Rightarrow> Error" where
  "Error_msg cat c msg = \<lparr>err_code = c, err_category = Some cat, err_message = Some msg\<rparr>"

definition Has :: "Error \<Rightarrow> bool" where
  "Has e = (err_category e \<noteq> None)"

text \<open>\<^verbatim>\<open>operator bool\<close> of \<^verbatim>\<open>Error\<close>.\<close>

definition Error_bool :: "Error \<Rightarrow> bool" where
  "Error_bool e = Has e"

definition HasMessage :: "Error \<Rightarrow> bool" where
  "HasMessage e = (err_message e \<noteq> None)"

definition GetBoostErrorCategory :: Category where
  "GetBoostErrorCategory = BoostErrorCategory"

definition GetSyscallErrorCategory :: Category where
  "GetSyscallErrorCategory = SyscallErrorCategory"

definition IsSysError :: "Error \<Rightarrow> bool" where
  "IsSysError e = (err_category e = Some GetSyscallErrorCategory)"

definition IsBoostError :: "Error \<Rightarrow> bool" where
  "IsBoostError e = (err_category e = Some GetBoostErrorCategory)"

definition MkSysError :: "int \<Rightarrow> Error" where
  "MkSysError sys_errno = Error_code GetSyscallErrorCategory sys_errno"

definition MkBoostError :: "int \<Rightarrow> string \<Rightarrow> Error" where
  "MkBoostError c msg =
     (if c = 0 then Error_default else Error_msg GetBoostErrorCategory c msg)"


section \<open>Results (base/result.h)\<close>

text \<open>
  \<^verbatim>\<open>Result<T>\<close> is a variant over \<^verbatim>\<open>{Null, T, Error}\<close>. \<^verbatim>\<open>PassResult\<close> and
  \<^verbatim>\<open>PassError\<close> move the alternative out and clear the result; on the wrong
  alternative their \<^verbatim>\<open>DCHECK\<close> fails, which the model writes as \<open>None\<close>.
  \<^verbatim>\<open>Result<void>\<close> wraps one \<^verbatim>\<open>Error\<close> and is ok exactly when that error is empty.
\<close>

datatype 'a Result = Null | Ok 'a | Err Error

fun Result_IsOk :: "'a Result \<Rightarrow> bool" where
  "Result_IsOk (Ok v) = True"
| "Result_IsOk r = False"

fun PassResult :: "'a Result \<Rightarrow> ('a \<times> 'a Result) option" where
  "PassResult (Ok v) = Some (v, Null)"
| "PassResult r = None"

fun PassError :: "'a Result \<Rightarrow> (Error \<times> 'a Result) option" where
  "PassError (Err e) = Some (e, Null)"
| "PassError r = None"

definition Result_void_IsOk :: "Error \<Rightarrow> bool" where
  "Result_void_IsOk v = (\<not> Error_bool v)"


section \<open>Event errors and executors (event/basic.h, event/executor.h)\<close>

datatype EventError =
    kErrorEventPromiseAny
  | kErrorEventPromiseRace
  | kErrorEventLoopShutdown
  | kErrorUnsupportedEvent
  | kErrorCoroutineException

text \<open>The enumerators are numbered from 0 in the order of \<^verbatim>\<open>EVENT_ERROR_LIST\<close>.\<close>

fun EventError_code :: "EventError \<Rightarrow> int" where
  "EventError_code kErrorEventPromiseAny = 0"
| "EventError_code kErrorEventPromiseRace = 1"
| "EventError_code kErrorEventLoopShutdown = 2"
| "EventError_code kErrorUnsupportedEvent = 3"
| "EventError_code kErrorCoroutineException = 4"

text \<open>\<^verbatim>\<open>Err(e, args...)\<close>: an error of the event category with a formatted message.\<close>

definition Err_msg :: "EventError \<Rightarrow> string \<Rightarrow> Error" where
  "Err_msg e msg = Error_msg EventCategory (EventError_code e) msg"

text \<open>
  \<^verbatim>\<open>Executor::Post\<close> is virtual. \<^verbatim>\<open>LocalExecutor\<close> of \<^verbatim>\<open>executor.h\<close> calls the function in
  place; the other executors of the repository (the test's \<^verbatim>\<open>MockExecutor\<close>, the loop's
  \<^verbatim>\<open>RemoteExecutor\<close> and the loop's own queues, of the nested class
  \<^verbatim>\<open>MessageLoop::LocalExecutor\<close>) append it to a queue that is run later.
\<close>

datatype Executor = LocalExecutor | QueueExecutor nat


section \<open>Promise status machine (event/promise.h)\<close>

datatype PromiseStatus =
    kInit
  | kPreFulfilled
  | kFulfilled
  | kPreRejected
  | kRejected
  | kCancelled

definition IsEmpty :: "PromiseStatus \<Rightarrow> bool" where
  "IsEmpty s = (s = kInit)"

definition IsPreFulfilled :: "PromiseStatus \<Rightarrow> bool" where
  "IsPreFulfilled s = (s = kPreFulfilled)"

definition IsFulfilled :: "PromiseStatus \<Rightarrow> bool" where
  "IsFulfilled s = (s = kFulfilled)"

definition IsPreRejected :: "PromiseStatus \<Rightarrow> bool" where
  "IsPreRejected s = (s = kPreRejected)"

definition IsRejected :: "PromiseStatus \<Rightarrow> bool" where
  "IsRejected s = (s = kRejected)"

definition IsCancelled :: "PromiseStatus \<Rightarrow> bool" where
  "IsCancelled s = (s = kCancelled)"

text \<open>Each transition returns whether it fired and the status afterwards.\<close>

definition To :: "PromiseStatus \<Rightarrow> PromiseStatus \<Rightarrow> PromiseStatus \<Rightarrow> bool \<times> PromiseStatus" where
  "To from to s = (if s = from then (True, to) else (False, s))"

definition ToPreFulfilled :: "PromiseStatus \<Rightarrow> bool \<times> PromiseStatus" where
  "ToPreFulfilled s = To kInit kPreFulfilled s"

definition ToFulfilled :: "PromiseStatus \<Rightarrow> bool \<times> PromiseStatus" where
  "ToFulfilled s = To kPreFulfilled kFulfilled s"

definition ToPreRejected :: "PromiseStatus \<Rightarrow> bool \<times> PromiseStatus" where
  "ToPreRejected s = To kInit kPreRejected s"

definition ToRejected :: "PromiseStatus \<Rightarrow> bool \<times> PromiseStatus" where
  "ToRejected s = To kPreRejected kRejected s"

fun ToCancelled :: "PromiseStatus \<Rightarrow> bool \<times> PromiseStatus" where
  "ToCancelled kInit = (True, kCancelled)"
| "ToCancelled kPreRejected = (True, kCancelled)"
| "ToCancelled kPreFulfilled = (True, kCancelled)"
| "ToCancelled s = (False, s)"

definition Force :: "PromiseStatus \<Rightarrow> PromiseStatus \<Rightarrow> PromiseStatus" where
  "Force t s = t"

definition IsPending :: "PromiseStatus \<Rightarrow> bool" where
  "IsPending s = (IsPreRejected s \<or> IsPreFulfilled s)"

definition IsDone :: "PromiseStatus \<Rightarrow> bool" where
  "IsDone s = (IsFulfilled s \<or> IsRejected s)"

definition IsSatisfied :: "PromiseStatus \<Rightarrow> bool" where
  "IsSatisfied s = (IsPreFulfilled s \<or> IsFulfilled s)"

definition IsUnsatisfied :: "PromiseStatus \<Rightarrow> bool" where
  "IsUnsatisfied s = (IsPreRejected s \<or> IsRejected s)"

definition IsSettled :: "PromiseStatus \<Rightarrow> bool" where
  "IsSettled s = (\<not> IsEmpty s \<and> \<not> IsCancelled s)"


section \<open>Promise states (event/promise.h)\<close>

text \<open>
  Promise states live on a heap of shared states, addressed by \<open>addr\<close>; an address
  with no state stands for a state that has been destroyed, so locking a weak pointer
  is a heap lookup. Values of every \<^verbatim>\<open>T\<close> are drawn from one universe \<open>val\<close>.
\<close>

type_synonym addr = nat

datatype val = VInt int | VDummy | VVec "val list"

text \<open>The \<^verbatim>\<open>void*\<close> argument of \<^verbatim>\<open>PropagateResult\<close>, with the type it points to.\<close>

datatype Erased = ErasedResult "val Result" | ErasedResultVoid Error

text \<open>
  Functors are the closures handed to \<^verbatim>\<open>Then\<close>, as data:
  \<^item> \<open>UserVoid tag\<close>: a user functor \<^verbatim>\<open>Result<T> -> void\<close>; the model records the call;
  \<^item> \<open>AllFn ctx p idx\<close>, \<open>AnyFn ctx p idx\<close>, \<open>RaceFn p\<close>: the lambdas of
    \<^verbatim>\<open>MkAllPromise\<close>, \<^verbatim>\<open>MkAnyPromise\<close> and \<^verbatim>\<open>MkRacePromise\<close>, capturing the shared
    context, the state \<open>p\<close> behind resolver and rejector, and the index;
  \<^item> \<open>AwaitFn h\<close>: the lambda of \<^verbatim>\<open>PromiseAwaiter::await_suspend\<close>, which stores the
    result and resumes the coroutine handle \<open>h\<close>;
  \<^item> \<open>StoreFn h\<close>: the lambda of \<^verbatim>\<open>PromiseAwaiter::await_resume\<close>, which only stores
    the result for the coroutine \<open>h\<close>.
  A callback is the closure \<^verbatim>\<open>Attach\<close> builds around a functor and a weak pointer to
  the attaching state: \<open>CbVoid\<close> for a functor returning \<^verbatim>\<open>void\<close>, \<open>CbResult tag g\<close>
  for a user functor \<^verbatim>\<open>Result<T> -> Result<U>\<close> that computes \<open>g\<close>.
\<close>

datatype Functor =
    UserVoid nat
  | AllFn addr addr nat
  | AnyFn addr addr nat
  | RaceFn addr
  | AwaitFn nat
  | StoreFn nat

datatype Callback =
    CbVoid Functor addr
  | CbResult nat "val Result \<Rightarrow> Erased" addr

record PromiseState =
  ps_void :: bool
  ps_status :: PromiseStatus
  ps_storage :: "val Result option"
  ps_storage_void :: "Error option"
  ps_callback :: "Callback option"
  ps_executor :: "Executor option"
  ps_previous :: "addr option"
  ps_next :: "addr option"
  ps_co_handle :: "nat option"
  ps_payload :: "addr list option"

text \<open>The \<^verbatim>\<open>Ctx\<close> structs of \<^verbatim>\<open>MkAllPromise\<close> and \<^verbatim>\<open>MkAnyPromise\<close>; the counter is a
  \<^verbatim>\<open>size_t\<close>.\<close>

record Ctx =
  ctx_counter :: nat
  ctx_results :: "val list"
  ctx_errors :: "Error list"

text \<open>A posted function: the weakly bound lambda of \<^verbatim>\<open>TryInvokeCallback\<close>.\<close>

datatype Thunk = TrampolineOf addr

text \<open>What the outside world sees: a user functor called, a coroutine resumed with a
  result, a result stored for a coroutine, a coroutine frame destroyed.\<close>

datatype Trace =
    Called nat "val Result"
  | Resumed nat "val Result"
  | Stored nat "val Result"
  | Destroyed nat

record World =
  w_heap :: "addr \<Rightarrow> PromiseState option"
  w_ctx :: "addr \<Rightarrow> Ctx option"
  w_queue :: "nat \<Rightarrow> Thunk list"
  w_trace :: "Trace list"
  w_fresh :: addr

definition PromiseState_new :: "bool \<Rightarrow> PromiseState" where
  "PromiseState_new v = \<lparr>ps_void = v, ps_status = kInit, ps_storage = None,
     ps_storage_void = None, ps_callback = None, ps_executor = None, ps_previous = None,
     ps_next = None, ps_co_handle = None, ps_payload = None\<rparr>"

definition World_empty :: World where
  "World_empty = \<lparr>w_heap = (\<lambda>a. None), w_ctx = (\<lambda>a. None), w_queue = (\<lambda>q. []),
     w_trace = [], w_fresh = 0\<rparr>"

definition put :: "addr \<Rightarrow> PromiseState \<Rightarrow> World \<Rightarrow> World" where
  "put a s w = w\<lparr>w_heap := (w_heap w)(a := Some s)\<rparr>"

text \<open>\<^verbatim>\<open>std::make_shared<PromiseState<T>>()\<close>: a fresh address, never reused.\<close>

definition make_shared :: "bool \<Rightarrow> World \<Rightarrow> addr \<times> World" where
  "make_shared v w = (w_fresh w, (put (w_fresh w) (PromiseState_new v) w)\<lparr>w_fresh := Suc (w_fresh w)\<rparr>)"

definition Post :: "nat \<Rightarrow> Thunk \<Rightarrow> World \<Rightarrow> World" where
  "Post q t w = w\<lparr>w_queue := (w_queue w)(q := w_queue w q @ [t])\<rparr>"

definition size_t_dec :: "nat \<Rightarrow> nat" where
  "size_t_dec c = (c + 2 ^ 64 - 1) mod 2 ^ 64"


text \<open>
  What a callback does last: settle another state, hand a result to the next state of
  the chain, or nothing.
\<close>

datatype Action =
    NoAction
  | DoResolve addr val
  | DoReject addr Error
  | DoPropagate addr Erased

text \<open>
  The body of a functor called on the result stored in state \<open>a\<close> (passed by rvalue
  reference, so \<^verbatim>\<open>PassResult\<close> and \<^verbatim>\<open>PassError\<close> clear it in place), up to its final
  call of \<^verbatim>\<open>resolver\<close> or \<^verbatim>\<open>rejector\<close>.
\<close>

definition Functor_body :: "Functor \<Rightarrow> addr \<Rightarrow> World \<Rightarrow> (Action \<times> World) option" where
  "Functor_body f a w =
     (case w_heap w a of
        None \<Rightarrow> None
      | Some s \<Rightarrow>
          (case ps_storage s of
             None \<Rightarrow> None
           | Some r \<Rightarrow>
               (case f of
                  UserVoid tag \<Rightarrow> Some (NoAction, w\<lparr>w_trace := w_trace w @ [Called tag r]\<rparr>)
                | AwaitFn h \<Rightarrow> Some (NoAction, w\<lparr>w_trace := w_trace w @ [Resumed h r]\<rparr>)
                | StoreFn h \<Rightarrow> Some (NoAction, w\<lparr>w_trace := w_trace w @ [Stored h r]\<rparr>)
                | RaceFn p \<Rightarrow>
                    (if Result_IsOk r then
                       (case PassResult r of
                          None \<Rightarrow> None
                        | Some (v, r') \<Rightarrow>
                            Some (DoResolve p v, put a (s\<lparr>ps_storage := Some r'\<rparr>) w))
                     else
                       (case PassError r of
                          None \<Rightarrow> None
                        | Some (e, r') \<Rightarrow>
                            Some (DoReject p e, put a (s\<lparr>ps_storage := Some r'\<rparr>) w)))
                | AllFn c p idx \<Rightarrow>
                    (if \<not> Result_IsOk r then
                       (case PassError r of
                          None \<Rightarrow> None
                        | Some (e, r') \<Rightarrow>
                            Some (DoReject p e, put a (s\<lparr>ps_storage := Some r'\<rparr>) w))
                     else
                       (case PassResult r of
                          None \<Rightarrow> None
                        | Some (v, r') \<Rightarrow>
                            (case w_ctx w c of
                               None \<Rightarrow> None
                             | Some cx \<Rightarrow>
                                 if idx < length (ctx_results cx) then
                                   (let cx' = cx\<lparr>ctx_results := (ctx_results cx)[idx := v],
                                                 ctx_counter := size_t_dec (ctx_counter cx)\<rparr>;
                                        w' = (put a (s\<lparr>ps_storage := Some r'\<rparr>) w)
                                               \<lparr>w_ctx := (w_ctx w)(c := Some cx')\<rparr>
                                    in if ctx_counter cx' = 0
                                       then Some (DoResolve p (VVec (ctx_results cx')), w')
                                       else Some (NoAction, w'))
                                 else None)))
                | AnyFn c p idx \<Rightarrow>
                    (if Result_IsOk r then
                       (case PassResult r of
                          None \<Rightarrow> None
                        | Some (v, r') \<Rightarrow>
                            Some (DoResolve p v, put a (s\<lparr>ps_storage := Some r'\<rparr>) w))
                     else
                       (case PassError r of
                          None \<Rightarrow> None
                        | Some (e, r') \<Rightarrow>
                            (case w_ctx w c of
                               None \<Rightarrow> None
                             | Some cx \<Rightarrow>
                                 if idx < length (ctx_errors cx) then
                                   (let cx' = cx\<lparr>ctx_errors := (ctx_errors cx)[idx := e],
                                                 ctx_counter := size_t_dec (ctx_counter cx)\<rparr>;
                                        w' = (put a (s\<lparr>ps_storage := Some r'\<rparr>) w)
                                               \<lparr>w_ctx := (w_ctx w)(c := Some cx')\<rparr>
                                    in if ctx_counter cx' = 0
                                       then Some (DoReject p
                                              (Err_msg kErrorEventPromiseAny ''no resolved promise''), w')
                                       else Some (NoAction, w'))
                                 else None))))))"

text \<open>
  The closures of \<^verbatim>\<open>Attach\<close>, applied to the result stored in state \<open>a\<close>. A callback
  whose attaching state is gone does nothing. The void closure asserts that no next
  propagator exists; the result closure reads the next propagator, calls the functor
  and hands its result on.
\<close>

definition Callback_body :: "Callback \<Rightarrow> addr \<Rightarrow> World \<Rightarrow> (Action \<times> World) option" where
  "Callback_body cb a w =
     (case cb of
        CbVoid f owner \<Rightarrow>
          (case w_heap w owner of
             None \<Rightarrow> Some (NoAction, w)
           | Some so \<Rightarrow> if ps_next so \<noteq> None then None else Functor_body f a w)
      | CbResult tag g owner \<Rightarrow>
          (case w_heap w owner of
             None \<Rightarrow> Some (NoAction, w)
           | Some so \<Rightarrow>
               (case w_heap w a of
                  None \<Rightarrow> None
                | Some s \<Rightarrow>
                    (case ps_storage s of
                       None \<Rightarrow> None
                     | Some r \<Rightarrow>
                         Some (case ps_next so of
                                 None \<Rightarrow> NoAction
                               | Some pp \<Rightarrow> DoPropagate pp (g r),
                               w\<lparr>w_trace := w_trace w @ [Called tag r]\<rparr>)))))"

text \<open>
  The functions below call each other through callbacks that run in place, so they
  carry a bound \<open>n\<close> on the depth of calls still allowed. \<open>None\<close> means that the call
  does not return normally: a failed \<^verbatim>\<open>CHECK\<close> or \<^verbatim>\<open>DCHECK\<close>, a null or dangling
  pointer, a result read at the wrong type, or the bound used up.

  \<open>Resolve\<close> and \<open>Reject\<close> are the members of \<^verbatim>\<open>PromiseState<T>\<close>; \<open>Trampoline\<close> is the
  weakly bound lambda that \<^verbatim>\<open>TryInvokeCallback\<close> hands to \<^verbatim>\<open>RunInExecutor\<close>;
  \<open>PropagateResult\<close> is virtual and dispatches on the specialization of the state.
\<close>

function Resolve :: "nat \<Rightarrow> addr \<Rightarrow> val \<Rightarrow> World \<Rightarrow> (bool \<times> World) option"
and Reject :: "nat \<Rightarrow> addr \<Rightarrow> Error \<Rightarrow> World \<Rightarrow> (bool \<times> World) option"
and TryInvokeCallback :: "nat \<Rightarrow> addr \<Rightarrow> World \<Rightarrow> World option"
and Trampoline :: "nat \<Rightarrow> addr \<Rightarrow> World \<Rightarrow> World option"
and InvokeCallback :: "nat \<Rightarrow> addr \<Rightarrow> World \<Rightarrow> World option"
and perform :: "nat \<Rightarrow> Action \<Rightarrow> World \<Rightarrow> World option"
and PropagateResult :: "nat \<Rightarrow> addr \<Rightarrow> Erased \<Rightarrow> World \<Rightarrow> World option"
where
  "Resolve n a v w =
     (case n of
        0 \<Rightarrow> None
      | Suc m \<Rightarrow>
          (case w_heap w a of
             None \<Rightarrow> None
           | Some s \<Rightarrow>
               if ps_void s then None
               else if IsEmpty (ps_status s) then
                 map_option (Pair True)
                   (TryInvokeCallback m a
                      (put a (s\<lparr>ps_storage := Some (Ok v),
                                ps_status := snd (ToPreFulfilled (ps_status s))\<rparr>) w))
               else Some (False, w)))"
| "Reject n a e w =
     (case n of
        0 \<Rightarrow> None
      | Suc m \<Rightarrow>
          (case w_heap w a of
             None \<Rightarrow> None
           | Some s \<Rightarrow>
               if ps_void s then None
               else if IsEmpty (ps_status s) then
                 map_option (Pair True)
                   (TryInvokeCallback m a
                      (put a (s\<lparr>ps_storage := Some (Err e),
                                ps_status := snd (ToPreRejected (ps_status s))\<rparr>) w))
               else Some (False, w)))"
| "TryInvokeCallback n a w =
     (case n of
        0 \<Rightarrow> None
      | Suc m \<Rightarrow>
          (case w_heap w a of
             None \<Rightarrow> None
           | Some s \<Rightarrow>
               if ps_callback s \<noteq> None \<and> IsPending (ps_status s) then
                 (case ps_executor s of
                    Some (QueueExecutor q) \<Rightarrow> Some (Post q (TrampolineOf a) w)
                  | Some LocalExecutor \<Rightarrow> Trampoline m a w
                  | None \<Rightarrow> Trampoline m a w)
               else Some w))"
| "Trampoline n a w =
     (case n of
        0 \<Rightarrow> None
      | Suc m \<Rightarrow>
          (case w_heap w a of
             None \<Rightarrow> Some w
           | Some s \<Rightarrow>
               if ps_status s = kPreFulfilled then
                 (if fst (ToFulfilled (ps_status s))
                  then InvokeCallback m a
                         (put a (s\<lparr>ps_status := snd (ToFulfilled (ps_status s))\<rparr>) w)
                  else None)
               else if ps_status s = kPreRejected then
                 (if fst (ToRejected (ps_status s))
                  then InvokeCallback m a
                         (put a (s\<lparr>ps_status := snd (ToRejected (ps_status s))\<rparr>) w)
                  else None)
               else Some w))"
| "InvokeCallback n a w =
     (case n of
        0 \<Rightarrow> None
      | Suc m \<Rightarrow>
          (case w_heap w a of
             None \<Rightarrow> None
           | Some s \<Rightarrow>
               if ps_storage s = None then None
               else
                 (case ps_callback s of
                    None \<Rightarrow> None
                  | Some cb \<Rightarrow>
                      (case Callback_body cb a (put a (s\<lparr>ps_callback := None\<rparr>) w) of
                         None \<Rightarrow> None
                       | Some (act, w') \<Rightarrow> perform m act w'))))"
| "perform n act w =
     (case n of
        0 \<Rightarrow> None
      | Suc m \<Rightarrow>
          (case act of
             NoAction \<Rightarrow> Some w
           | DoResolve p v \<Rightarrow> map_option snd (Resolve m p v w)
           | DoReject p e \<Rightarrow> map_option snd (Reject m p e w)
           | DoPropagate pp res \<Rightarrow> PropagateResult m pp res w))"
| "PropagateResult n a er w =
     (case n of
        0 \<Rightarrow> None
      | Suc m \<Rightarrow>
          (case w_heap w a of
             None \<Rightarrow> None
           | Some s \<Rightarrow>
               if ps_void s then
                 (case er of
                    ErasedResult r \<Rightarrow> None
                  | ErasedResultVoid e \<Rightarrow>
                      if IsDone (ps_status s) then None
                      else
                        (case ps_next s of
                           None \<Rightarrow>
                             Some (put a (s\<lparr>ps_storage_void := Some e,
                                            ps_status := (if Result_void_IsOk e
                                                          then Force kFulfilled (ps_status s)
                                                          else Force kRejected (ps_status s))\<rparr>) w)
                         | Some nx \<Rightarrow>
                             PropagateResult m nx (ErasedResultVoid e)
                               (put a (s\<lparr>ps_storage_void := Some e,
                                         ps_status := (if Result_void_IsOk e
                                                       then Force kFulfilled (ps_status s)
                                                       else Force kRejected (ps_status s))\<rparr>) w)))
               else
                 (case er of
                    ErasedResultVoid e \<Rightarrow> None
                  | ErasedResult r \<Rightarrow>
                      if Result_IsOk r then
                        (case PassResult r of
                           None \<Rightarrow> None
                         | Some (v, r') \<Rightarrow> map_option snd (Resolve m a v w))
                      else
                        (case PassError r of
                           None \<Rightarrow> None
                         | Some (e, r') \<Rightarrow> map_option snd (Reject m a e w)))))"
  by pat_completeness auto
termination
  by (relation "measure (case_sum (case_sum fst (case_sum fst fst))
                   (case_sum (case_sum fst fst) (case_sum fst fst)))") auto

declare Resolve.simps [simp del] Reject.simps [simp del] TryInvokeCallback.simps [simp del]
  Trampoline.simps [simp del] InvokeCallback.simps [simp del] perform.simps [simp del]
  PropagateResult.simps [simp del]


text \<open>\<^verbatim>\<open>PromiseState<void>::Resolve\<close> and \<^verbatim>\<open>Reject\<close>: the state is forced to its final
  status through \<^verbatim>\<open>PropagateResult\<close>.\<close>

definition Resolve_void :: "nat \<Rightarrow> addr \<Rightarrow> World \<Rightarrow> (bool \<times> World) option" where
  "Resolve_void n a w =
     (case w_heap w a of
        None \<Rightarrow> None
      | Some s \<Rightarrow>
          if \<not> ps_void s then None
          else if IsEmpty (ps_status s) then
            map_option (Pair True) (PropagateResult n a (ErasedResultVoid Error_default) w)
          else Some (False, w))"

definition Reject_void :: "nat \<Rightarrow> addr \<Rightarrow> Error \<Rightarrow> World \<Rightarrow> (bool \<times> World) option" where
  "Reject_void n a e w =
     (case w_heap w a of
        None \<Rightarrow> None
      | Some s \<Rightarrow>
          if \<not> ps_void s then None
          else if IsEmpty (ps_status s) then
            map_option (Pair True) (PropagateResult n a (ErasedResultVoid e) w)
          else Some (False, w))"

text \<open>
  \<^verbatim>\<open>PromiseState<T>::Cancel\<close> and \<^verbatim>\<open>PromiseState<void>::Cancel\<close>. Both hide
  \<^verbatim>\<open>PromiseStateBase::Cancel\<close>; \<^verbatim>\<open>Promise<T>::Cancel\<close> and the resolvers call them
  through a pointer to the derived class. Destroying the coroutine handle is recorded
  in the trace; the handle itself is not reset.
\<close>

definition Cancel :: "addr \<Rightarrow> World \<Rightarrow> World option" where
  "Cancel a w =
     (case w_heap w a of
        None \<Rightarrow> None
      | Some s \<Rightarrow>
          if IsEmpty (ps_status s) \<or> IsPending (ps_status s) then
            Some ((put a (s\<lparr>ps_callback := None, ps_storage := None, ps_storage_void := None,
                             ps_status := snd (ToCancelled (ps_status s))\<rparr>) w)
                    \<lparr>w_trace := w_trace w @ (case ps_co_handle s of
                                               None \<Rightarrow> []
                                             | Some h \<Rightarrow> [Destroyed h])\<rparr>)
          else Some w)"

definition Promise_Cancel :: "addr \<Rightarrow> World \<Rightarrow> World option" where
  "Promise_Cancel p w = Cancel p w"

text \<open>
  \<^verbatim>\<open>PromiseStateBase::Cancel\<close>: the loop over \<^verbatim>\<open>next()\<close>. \<^verbatim>\<open>OnCancel\<close> has an empty
  body and no override. The bound \<open>n\<close> counts the states still to be visited.
\<close>

fun PromiseStateBase_Cancel :: "nat \<Rightarrow> addr \<Rightarrow> World \<Rightarrow> World option" where
  "PromiseStateBase_Cancel 0 c w = None"
| "PromiseStateBase_Cancel (Suc n) c w =
     (case w_heap w c of
        None \<Rightarrow> None
      | Some s \<Rightarrow>
          (case ps_next s of
             None \<Rightarrow> Some (put c (s\<lparr>ps_status := snd (ToCancelled (ps_status s))\<rparr>) w)
           | Some nx \<Rightarrow>
               PromiseStateBase_Cancel n nx
                 (put c (s\<lparr>ps_status := snd (ToCancelled (ps_status s))\<rparr>) w)))"

text \<open>\<^verbatim>\<open>Watch\<close>: the watching state keeps a strong pointer to the other one, which
  records it as its next state.\<close>

definition Watch :: "addr \<Rightarrow> addr \<Rightarrow> World \<Rightarrow> World option" where
  "Watch this other w =
     (case w_heap w this of
        None \<Rightarrow> None
      | Some s \<Rightarrow>
          (case w_heap (put this (s\<lparr>ps_previous := Some other\<rparr>) w) other of
             None \<Rightarrow> None
           | Some so \<Rightarrow>
               Some (put other (so\<lparr>ps_next := Some this\<rparr>)
                       (put this (s\<lparr>ps_previous := Some other\<rparr>) w))))"

definition AddCallback :: "nat \<Rightarrow> addr \<Rightarrow> Callback \<Rightarrow> Executor option \<Rightarrow> World \<Rightarrow> World option" where
  "AddCallback n a cb ex w =
     (case w_heap w a of
        None \<Rightarrow> None
      | Some s \<Rightarrow>
          if ps_void s then None
          else TryInvokeCallback n a (put a (s\<lparr>ps_callback := Some cb, ps_executor := ex\<rparr>) w))"

text \<open>The overloads of \<^verbatim>\<open>Attach\<close>: a functor returning \<^verbatim>\<open>void\<close>, and a functor
  returning a result with a next state to hand it to.\<close>

definition Attach_void :: "nat \<Rightarrow> addr \<Rightarrow> Functor \<Rightarrow> Executor option \<Rightarrow> World \<Rightarrow> World option" where
  "Attach_void n a f ex w = AddCallback n a (CbVoid f a) ex w"

definition Attach_next ::
  "nat \<Rightarrow> addr \<Rightarrow> addr \<Rightarrow> nat \<Rightarrow> (val Result \<Rightarrow> Erased) \<Rightarrow> Executor option \<Rightarrow> World \<Rightarrow> World option" where
  "Attach_next n a nx tag g ex w =
     (case Watch nx a w of
        None \<Rightarrow> None
      | Some w' \<Rightarrow> AddCallback n a (CbResult tag g a) ex w')"

text \<open>\<^verbatim>\<open>Promise<T>::Then\<close> for a functor returning \<^verbatim>\<open>void\<close>, and for a functor
  returning \<^verbatim>\<open>Result<R>\<close> (\<open>v\<close> tells whether \<^verbatim>\<open>R\<close> is \<^verbatim>\<open>void\<close>).\<close>

definition Then_void :: "nat \<Rightarrow> addr \<Rightarrow> Functor \<Rightarrow> Executor option \<Rightarrow> World \<Rightarrow> World option" where
  "Then_void n p f ex w = Attach_void n p f ex w"

definition Then_result ::
  "nat \<Rightarrow> addr \<Rightarrow> bool \<Rightarrow> nat \<Rightarrow> (val Result \<Rightarrow> Erased) \<Rightarrow> Executor option \<Rightarrow> World
     \<Rightarrow> (addr \<times> World) option" where
  "Then_result n p v tag g ex w =
     (case make_shared v w of
        (nx, w') \<Rightarrow> map_option (Pair nx) (Attach_next n p nx tag g ex w'))"

text \<open>The test's \<^verbatim>\<open>MockExecutor::RunOne\<close>: run the oldest posted function, if any.\<close>

definition RunOne :: "nat \<Rightarrow> nat \<Rightarrow> World \<Rightarrow> (bool \<times> World) option" where
  "RunOne n q w =
     (case w_queue w q of
        [] \<Rightarrow> Some (False, w)
      | TrampolineOf a # ts \<Rightarrow>
          map_option (Pair True) (Trampoline n a (w\<lparr>w_queue := (w_queue w)(q := ts)\<rparr>)))"

text \<open>The destructor of a promise state, run when its last owner lets go: the previous
  state forgets it.\<close>

definition PromiseState_destroy :: "addr \<Rightarrow> World \<Rightarrow> World" where
  "PromiseState_destroy a w =
     (case w_heap w a of
        None \<Rightarrow> w
      | Some s \<Rightarrow>
          (case ps_previous s of
             None \<Rightarrow> w\<lparr>w_heap := (w_heap w)(a := None)\<rparr>
           | Some pr \<Rightarrow>
               (case w_heap w pr of
                  None \<Rightarrow> w\<lparr>w_heap := (w_heap w)(a := None)\<rparr>
                | Some sp \<Rightarrow>
                    (put pr (sp\<lparr>ps_next := None\<rparr>) w)
                      \<lparr>w_heap := (w_heap (put pr (sp\<lparr>ps_next := None\<rparr>) w))(a := None)\<rparr>)))"


section \<open>Resolvers (event/promise.h)\<close>

text \<open>A resolver holds a weak pointer: no address, or the address of a state that may
  be gone. \<open>lock\<close> yields the state's address while it is alive.\<close>

type_synonym PromiseResolver = "addr option"

definition lock :: "World \<Rightarrow> PromiseResolver \<Rightarrow> addr option" where
  "lock w r = (case r of
                 None \<Rightarrow> None
               | Some a \<Rightarrow> (case w_heap w a of None \<Rightarrow> None | Some s \<Rightarrow> Some a))"

definition GetResolver :: "addr \<Rightarrow> PromiseResolver" where
  "GetResolver p = Some p"

definition Resolver_Reset :: "PromiseResolver \<Rightarrow> PromiseResolver" where
  "Resolver_Reset r = None"

definition Resolver_IsExpired :: "World \<Rightarrow> PromiseResolver \<Rightarrow> bool" where
  "Resolver_IsExpired w r = (lock w r = None)"

definition Resolver_Resolve :: "nat \<Rightarrow> PromiseResolver \<Rightarrow> val \<Rightarrow> World \<Rightarrow> (bool \<times> World) option" where
  "Resolver_Resolve n r v w =
     (case lock w r of Some p \<Rightarrow> Resolve n p v w | None \<Rightarrow> Some (False, w))"

definition Resolver_Reject :: "nat \<Rightarrow> PromiseResolver \<Rightarrow> Error \<Rightarrow> World \<Rightarrow> (bool \<times> World) option" where
  "Resolver_Reject n r e w =
     (case lock w r of Some p \<Rightarrow> Reject n p e w | None \<Rightarrow> Some (False, w))"

definition Resolver_Set :: "nat \<Rightarrow> PromiseResolver \<Rightarrow> val Result \<Rightarrow> World \<Rightarrow> (bool \<times> World) option" where
  "Resolver_Set n r res w =
     (if Result_IsOk res then
        (case PassResult res of
           None \<Rightarrow> None
         | Some (v, res') \<Rightarrow> Resolver_Resolve n r v w)
      else
        (case PassError res of
           None \<Rightarrow> None
         | Some (e, res') \<Rightarrow> Resolver_Reject n r e w))"

definition Resolver_Cancel :: "PromiseResolver \<Rightarrow> World \<Rightarrow> World option" where
  "Resolver_Cancel r w = (case lock w r of Some p \<Rightarrow> Cancel p w | None \<Rightarrow> Some w)"

definition Resolver_status :: "World \<Rightarrow> PromiseResolver \<Rightarrow> PromiseStatus option" where
  "Resolver_status w r =
     (case lock w r of None \<Rightarrow> None | Some p \<Rightarrow> map_option ps_status (w_heap w p))"

definition Resolver_IsDone :: "World \<Rightarrow> PromiseResolver \<Rightarrow> bool option" where
  "Resolver_IsDone w r = map_option IsDone (Resolver_status w r)"

definition Resolver_IsEmpty :: "World \<Rightarrow> PromiseResolver \<Rightarrow> bool option" where
  "Resolver_IsEmpty w r = map_option IsEmpty (Resolver_status w r)"

definition Resolver_IsSettled :: "World \<Rightarrow> PromiseResolver \<Rightarrow> bool option" where
  "Resolver_IsSettled w r = map_option IsSettled (Resolver_status w r)"

definition Resolver_IsSatisfied :: "World \<Rightarrow> PromiseResolver \<Rightarrow> bool option" where
  "Resolver_IsSatisfied w r = map_option IsSatisfied (Resolver_status w r)"

definition Resolver_IsUnsatisfied :: "World \<Rightarrow> PromiseResolver \<Rightarrow> bool option" where
  "Resolver_IsUnsatisfied w r = map_option IsUnsatisfied (Resolver_status w r)"

text \<open>The resolver of \<^verbatim>\<open>Promise<void>\<close>.\<close>

definition Resolver_void_Resolve :: "nat \<Rightarrow> PromiseResolver \<Rightarrow> World \<Rightarrow> (bool \<times> World) option" where
  "Resolver_void_Resolve n r w =
     (case lock w r of Some p \<Rightarrow> Resolve_void n p w | None \<Rightarrow> Some (False, w))"

definition Resolver_void_Reject :: "nat \<Rightarrow> PromiseResolver \<Rightarrow> Error \<Rightarrow> World \<Rightarrow> (bool \<times> World) option" where
  "Resolver_void_Reject n r e w =
     (case lock w r of Some p \<Rightarrow> Reject_void n p e w | None \<Rightarrow> Some (False, w))"

definition Resolver_void_Set :: "nat \<Rightarrow> PromiseResolver \<Rightarrow> Error \<Rightarrow> World \<Rightarrow> (bool \<times> World) option" where
  "Resolver_void_Set n r res w =
     (if Result_void_IsOk res then Resolver_void_Resolve n r w
      else Resolver_void_Reject n r res w)"


section \<open>Promise factories and combinators (event/promise.h)\<close>

definition MkResolvedPromise :: "nat \<Rightarrow> val \<Rightarrow> World \<Rightarrow> (addr \<times> World) option" where
  "MkResolvedPromise n v w =
     (case make_shared False w of
        (p, w') \<Rightarrow> map_option (\<lambda>(b, w''). (p, w'')) (Resolve n p v w'))"

definition MkRejectedPromise :: "nat \<Rightarrow> Error \<Rightarrow> World \<Rightarrow> (addr \<times> World) option" where
  "MkRejectedPromise n e w =
     (case make_shared False w of
        (p, w') \<Rightarrow> map_option (\<lambda>(b, w''). (p, w'')) (Reject n p e w'))"

text \<open>The loop of every combinator: \<^verbatim>\<open>itr->Then(functor, executor)\<close> for each input, the
  functor capturing the running index.\<close>

fun attach_each ::
  "nat \<Rightarrow> (nat \<Rightarrow> Functor) \<Rightarrow> Executor option \<Rightarrow> addr list \<Rightarrow> nat \<Rightarrow> World \<Rightarrow> World option" where
  "attach_each n mk ex [] idx w = Some w"
| "attach_each n mk ex (p # ps) idx w =
     (case Then_void n p (mk idx) ex w of
        None \<Rightarrow> None
      | Some w' \<Rightarrow> attach_each n mk ex ps (Suc idx) w')"

text \<open>\<^verbatim>\<open>std::make_shared<Ctx>(c)\<close>: the counter is \<open>c\<close>, and the vector holds \<open>c\<close>
  default-constructed elements (\<open>d\<close> for a value, the empty error for an error).\<close>

definition make_ctx :: "nat \<Rightarrow> val \<Rightarrow> World \<Rightarrow> addr \<times> World" where
  "make_ctx c d w =
     (w_fresh w,
      w\<lparr>w_ctx := (w_ctx w)(w_fresh w :=
             Some \<lparr>ctx_counter = c, ctx_results = replicate c d,
                   ctx_errors = replicate c Error_default\<rparr>),
        w_fresh := Suc (w_fresh w)\<rparr>)"

text \<open>\<^verbatim>\<open>MkAttachmentPromise\<close> allocates a state that owns the container as its payload.\<close>

definition make_shared_attachment :: "addr list \<Rightarrow> World \<Rightarrow> addr \<times> World" where
  "make_shared_attachment cntr w =
     (w_fresh w,
      (put (w_fresh w) ((PromiseState_new False)\<lparr>ps_payload := Some cntr\<rparr>) w)
        \<lparr>w_fresh := Suc (w_fresh w)\<rparr>)"

definition MkAllPromise ::
  "nat \<Rightarrow> addr list \<Rightarrow> Executor option \<Rightarrow> val \<Rightarrow> World \<Rightarrow> (addr \<times> World) option" where
  "MkAllPromise n inputs ex d w =
     (if inputs = [] then MkResolvedPromise n (VVec []) w
      else
        (case make_shared False w of
           (p, w1) \<Rightarrow>
             (case make_ctx (length inputs) d w1 of
                (c, w2) \<Rightarrow> map_option (Pair p) (attach_each n (AllFn c p) ex inputs 0 w2))))"

definition MkAllPromiseAttachContainer ::
  "nat \<Rightarrow> addr list \<Rightarrow> Executor option \<Rightarrow> val \<Rightarrow> World \<Rightarrow> (addr \<times> World) option" where
  "MkAllPromiseAttachContainer n cntr ex d w =
     (if cntr = [] then MkResolvedPromise n (VVec []) w
      else
        (case make_shared_attachment cntr w of
           (p, w1) \<Rightarrow>
             (case make_ctx (length cntr) d w1 of
                (c, w2) \<Rightarrow> map_option (Pair p) (attach_each n (AllFn c p) ex cntr 0 w2))))"

definition MkAnyPromise ::
  "nat \<Rightarrow> addr list \<Rightarrow> Executor option \<Rightarrow> val \<Rightarrow> World \<Rightarrow> (addr \<times> World) option" where
  "MkAnyPromise n inputs ex d w =
     (if inputs = [] then
        MkRejectedPromise n (Err_msg kErrorEventPromiseAny ''no promise'') w
      else
        (case make_shared False w of
           (p, w1) \<Rightarrow>
             (case make_ctx (length inputs) d w1 of
                (c, w2) \<Rightarrow> map_option (Pair p) (attach_each n (AnyFn c p) ex inputs 0 w2))))"

definition MkAnyPromiseAttachContainer ::
  "nat \<Rightarrow> addr list \<Rightarrow> Executor option \<Rightarrow> val \<Rightarrow> World \<Rightarrow> (addr \<times> World) option" where
  "MkAnyPromiseAttachContainer n cntr ex d w =
     (if cntr = [] then
        MkRejectedPromise n (Err_msg kErrorEventPromiseAny ''no promise'') w
      else
        (case make_shared_attachment cntr w of
           (p, w1) \<Rightarrow>
             (case make_ctx (length cntr) d w1 of
                (c, w2) \<Rightarrow> map_option (Pair p) (attach_each n (AnyFn c p) ex cntr 0 w2))))"

definition MkRacePromise ::
  "nat \<Rightarrow> addr list \<Rightarrow> Executor option \<Rightarrow> World \<Rightarrow> (addr \<times> World) option" where
  "MkRacePromise n inputs ex w =
     (if inputs = [] then
        MkRejectedPromise n (Err_msg kErrorEventPromiseRace ''no promise'') w
      else
        (case make_shared False w of
           (p, w1) \<Rightarrow> map_option (Pair p) (attach_each n (\<lambda>idx. RaceFn p) ex inputs 0 w1)))"

text \<open>
  In \<^verbatim>\<open>MkRacePromiseAttachContainer\<close> the rejected promise built for an empty container
  is a discarded temporary (the statement has no \<^verbatim>\<open>return\<close>): its state is destroyed at
  the end of the statement and the function goes on to build the attachment promise.
\<close>

definition MkRacePromiseAttachContainer ::
  "nat \<Rightarrow> addr list \<Rightarrow> Executor option \<Rightarrow> World \<Rightarrow> (addr \<times> World) option" where
  "MkRacePromiseAttachContainer n cntr ex w =
     (case (if cntr = [] then
              map_option (\<lambda>(tmp, w'). PromiseState_destroy tmp w')
                (MkRejectedPromise n (Err_msg kErrorEventPromiseRace ''no promise'') w)
            else Some w) of
        None \<Rightarrow> None
      | Some w0 \<Rightarrow>
          (case make_shared_attachment cntr w0 of
             (p, w1) \<Rightarrow> map_option (Pair p) (attach_each n (\<lambda>idx. RaceFn p) ex cntr 0 w1)))"


section \<open>Coroutine bridge (event/coroutine.h)\<close>

text \<open>
  \<^verbatim>\<open>PromiseAwaiter<T>\<close> and \<^verbatim>\<open>PromiseAwaiter<void>\<close> (for a notifier) own the awaited
  promise \<open>p\<close>. \<open>co_await\<close> is the protocol the compiler runs on an awaiter: when
  \<^verbatim>\<open>await_ready\<close> is true the coroutine goes on with \<^verbatim>\<open>await_resume\<close>, otherwise it is
  suspended and \<^verbatim>\<open>await_suspend\<close> gets its handle.
\<close>

definition await_ready :: "World \<Rightarrow> addr \<Rightarrow> bool option" where
  "await_ready w p = map_option (\<lambda>s. IsPending (ps_status s)) (w_heap w p)"

text \<open>
  The current message loop (\<^verbatim>\<open>event/message-loop.h\<close>, \<^verbatim>\<open>message-loop.cc\<close>).
  \<^verbatim>\<open>MessageLoop::Current()\<close> returns the thread-local pointer \<^verbatim>\<open>loop\<close>, which is null on a
  thread where no loop is alive. \<^verbatim>\<open>executor()\<close> of a loop is the address of its member
  \<^verbatim>\<open>normal_\<close>, whose \<^verbatim>\<open>Post\<close> pushes the function on a queue that the loop runs later; a
  loop is given by the number of that queue.
\<close>

datatype MessageLoop = MessageLoop (normal_queue: nat)

definition MessageLoop_executor :: "MessageLoop \<Rightarrow> Executor" where
  "MessageLoop_executor loop = QueueExecutor (normal_queue loop)"

text \<open>\<^verbatim>\<open>await_suspend\<close>: \<open>current\<close> is what \<^verbatim>\<open>MessageLoop::Current()\<close> returns;
  \<^verbatim>\<open>DCHECK(current)\<close> fails on a null pointer, which the next line would dereference.\<close>

definition await_suspend :: "nat \<Rightarrow> addr \<Rightarrow> nat \<Rightarrow> MessageLoop option \<Rightarrow> World \<Rightarrow> World option" where
  "await_suspend n p h current w =
     (case current of
        None \<Rightarrow> None
      | Some loop \<Rightarrow> Then_void n p (AwaitFn h) (Some (MessageLoop_executor loop)) w)"

definition await_resume :: "nat \<Rightarrow> addr \<Rightarrow> nat \<Rightarrow> World \<Rightarrow> World option" where
  "await_resume n p h w =
     (case w_heap w p of
        None \<Rightarrow> None
      | Some s \<Rightarrow>
          if IsPending (ps_status s) then Then_void n p (StoreFn h) None w else Some w)"

datatype AwaitOutcome = Continues | Suspends

definition co_await ::
  "nat \<Rightarrow> addr \<Rightarrow> nat \<Rightarrow> MessageLoop option \<Rightarrow> World \<Rightarrow> (AwaitOutcome \<times> World) option" where
  "co_await n p h current w =
     (case await_ready w p of
        None \<Rightarrow> None
      | Some True \<Rightarrow> map_option (Pair Continues) (await_resume n p h w)
      | Some False \<Rightarrow> map_option (Pair Suspends) (await_suspend n p h current w))"


section \<open>Hierarchical timer wheel (base/timer-wheel.h, base/timer-wheel.cc)\<close>

text \<open>
  A \<^verbatim>\<open>Tick\<close> is a \<^verbatim>\<open>uint64_t\<close>: a natural number below \<open>TICK\<close>, with every sum and
  difference reduced modulo \<open>TICK\<close>. \<^verbatim>\<open>x & kMask\<close> is \<open>x mod kNumSlots\<close> and
  \<^verbatim>\<open>x >> kWidthBits\<close> is \<open>x div kNumSlots\<close>.
\<close>

definition TICK :: nat where
  "TICK = 2 ^ 64"

definition kWidthBits :: nat where
  "kWidthBits = 8"

definition kNumLevels :: nat where
  "kNumLevels = (64 + kWidthBits - 1) div kWidthBits"

definition kMaxLevel :: nat where
  "kMaxLevel = kNumLevels - 1"

definition kNumSlots :: nat where
  "kNumSlots = 2 ^ kWidthBits"

definition kMask :: nat where
  "kMask = kNumSlots - 1"

text \<open>
  Events are named by numbers. The intrusive doubly linked list of a slot is the list
  of its events, head first; an event's \<^verbatim>\<open>slot_\<close> pointer is \<open>ev_slot\<close>, a level and an
  index, and its \<^verbatim>\<open>scheduled_at_\<close> is \<open>ev_scheduled_at\<close>. \<^verbatim>\<open>Execute\<close> runs the user's
  handler; the model records the call in \<open>executed\<close>, for handlers that leave the
  wheel alone.
\<close>

record TimerWheel =
  tw_now :: "nat \<Rightarrow> nat"
  tw_ticks_pending :: nat
  tw_slots :: "nat \<times> nat \<Rightarrow> nat list"
  ev_scheduled_at :: "nat \<Rightarrow> nat"
  ev_slot :: "nat \<Rightarrow> (nat \<times> nat) option"
  executed :: "nat list"

text \<open>The constructor \<^verbatim>\<open>TimerWheel(now)\<close>, with no event linked.\<close>

definition TimerWheel_new :: "nat \<Rightarrow> TimerWheel" where
  "TimerWheel_new now =
     \<lparr>tw_now = (\<lambda>i. now div 2 ^ (kWidthBits * i)), tw_ticks_pending = 0,
      tw_slots = (\<lambda>s. []), ev_scheduled_at = (\<lambda>e. 0), ev_slot = (\<lambda>e. None),
      executed = []\<rparr>"

definition Execute :: "nat \<Rightarrow> TimerWheel \<Rightarrow> TimerWheel" where
  "Execute e w = w\<lparr>executed := executed w @ [e]\<rparr>"

definition SetScheduleAt :: "nat \<Rightarrow> nat \<Rightarrow> TimerWheel \<Rightarrow> TimerWheel" where
  "SetScheduleAt e ts w = w\<lparr>ev_scheduled_at := (ev_scheduled_at w)(e := ts)\<rparr>"

text \<open>\<^verbatim>\<open>TimerEventBase::Relink\<close>: nothing to do when the event is already in the new slot;
  otherwise unlink it from its old slot and push it on the head of the new one.\<close>

definition Relink :: "nat \<Rightarrow> (nat \<times> nat) option \<Rightarrow> TimerWheel \<Rightarrow> TimerWheel" where
  "Relink e new_slot w =
     (if new_slot = ev_slot w e then w
      else
        (let w1 = (case ev_slot w e of
                     None \<Rightarrow> w
                   | Some old \<Rightarrow> w\<lparr>tw_slots := (tw_slots w)(old := remove1 e (tw_slots w old))\<rparr>)
         in (case new_slot of
               None \<Rightarrow> w1\<lparr>ev_slot := (ev_slot w1)(e := None)\<rparr>
             | Some s \<Rightarrow> w1\<lparr>tw_slots := (tw_slots w1)(s := e # tw_slots w1 s),
                            ev_slot := (ev_slot w1)(e := Some s)\<rparr>)))"

text \<open>\<^verbatim>\<open>TimerEventBase::Cancel\<close>.\<close>

definition TimerEvent_Cancel :: "nat \<Rightarrow> TimerWheel \<Rightarrow> TimerWheel" where
  "TimerEvent_Cancel e w = (if ev_slot w e = None then w else Relink e None w)"

text \<open>\<^verbatim>\<open>TimerWheelSlot::PopEvent\<close>; on an empty slot it dereferences a null pointer.\<close>

definition PopEvent :: "nat \<times> nat \<Rightarrow> TimerWheel \<Rightarrow> (nat \<times> TimerWheel) option" where
  "PopEvent s w =
     (case tw_slots w s of
        [] \<Rightarrow> None
      | e # es \<Rightarrow> Some (e, w\<lparr>tw_slots := (tw_slots w)(s := es),
                               ev_slot := (ev_slot w)(e := None)\<rparr>))"

text \<open>
  The loop of \<^verbatim>\<open>Schedule\<close> that finds the level: while the delta does not fit one
  rotation, fold in the phase of the level and go one level up. Reading \<^verbatim>\<open>now_\<close> at a
  level that does not exist is out of bounds (\<open>None\<close>).
\<close>

function level_walk :: "(nat \<Rightarrow> nat) \<Rightarrow> nat \<Rightarrow> nat \<Rightarrow> (nat \<times> nat) option" where
  "level_walk now level delta =
     (if delta \<ge> kNumSlots then
        (if level < kNumLevels
         then level_walk now (Suc level) (((delta + now level mod kNumSlots) mod TICK) div kNumSlots)
         else None)
      else Some (level, delta))"
  by pat_completeness auto
termination
  by (relation "measure (\<lambda>(now, level, delta). kNumLevels - level)") auto

declare level_walk.simps [simp del]

text \<open>\<^verbatim>\<open>TimerWheel::Schedule\<close>. A zero delta fails the \<^verbatim>\<open>DCHECK\<close>; a level beyond the last
  one indexes \<^verbatim>\<open>now_\<close> and \<^verbatim>\<open>slots_\<close> out of bounds.\<close>

definition Schedule :: "nat \<Rightarrow> nat \<Rightarrow> TimerWheel \<Rightarrow> TimerWheel option" where
  "Schedule e delta w =
     (if delta = 0 then None
      else
        (case level_walk (tw_now w) 0 delta of
           None \<Rightarrow> None
         | Some (level, d) \<Rightarrow>
             if level < kNumLevels then
               Some (Relink e (Some (level, ((tw_now w level + d) mod TICK) mod kNumSlots))
                       (SetScheduleAt e ((tw_now w 0 + delta) mod TICK) w))
             else None))"

text \<open>
  The \<^verbatim>\<open>while (slot->events())\<close> loop of \<^verbatim>\<open>ProcessCurrentSlot\<close>. \<^verbatim>\<open>max_execute\<close> is a
  \<^verbatim>\<open>size_t\<close> that is decremented before it is tested. The loop need not end on a wheel
  whose events sit in the wrong slots, so it is a partial function: \<open>None\<close> is a failed
  \<^verbatim>\<open>DCHECK\<close>, an access out of bounds, or a loop that runs forever.
\<close>

partial_function (option) drain ::
  "nat \<Rightarrow> nat \<Rightarrow> nat \<Rightarrow> TimerWheel \<Rightarrow> (bool \<times> TimerWheel) option" where
  "drain level slot_index max_execute w =
     (if tw_slots w (level, slot_index) = [] then Some (True, w)
      else
        (case PopEvent (level, slot_index) w of
           None \<Rightarrow> None
         | Some (event, w1) \<Rightarrow>
             if level > 0 then
               (if tw_now w1 0 mod kNumSlots \<noteq> 0 then None
                else if tw_now w1 0 \<ge> ev_scheduled_at w1 event then
                  (if size_t_dec max_execute = 0 then Some (False, Execute event w1)
                   else drain level slot_index (size_t_dec max_execute) (Execute event w1))
                else
                  (case Schedule event
                          ((ev_scheduled_at w1 event + TICK - tw_now w1 0) mod TICK) w1 of
                     None \<Rightarrow> None
                   | Some w2 \<Rightarrow> drain level slot_index max_execute w2))
             else
               (if size_t_dec max_execute = 0 then Some (False, Execute event w1)
                else drain level slot_index (size_t_dec max_execute) (Execute event w1))))"

text \<open>
  \<^verbatim>\<open>TimerWheel::Advance\<close>, its \<^verbatim>\<open>while (delta--)\<close> loop, and
  \<^verbatim>\<open>TimerWheel::ProcessCurrentSlot\<close>. The level only grows in the recursion and is
  bounded by \<open>kMaxLevel\<close>.
\<close>

function Advance :: "nat \<Rightarrow> nat \<Rightarrow> nat \<Rightarrow> TimerWheel \<Rightarrow> (bool \<times> TimerWheel) option"
and Advance_loop :: "nat \<Rightarrow> nat \<Rightarrow> nat \<Rightarrow> TimerWheel \<Rightarrow> (bool \<times> TimerWheel) option"
and ProcessCurrentSlot :: "nat \<Rightarrow> nat \<Rightarrow> nat \<Rightarrow> TimerWheel \<Rightarrow> (bool \<times> TimerWheel) option"
where
  "Advance delta max_execute level w =
     (if level \<ge> kNumLevels then None
      else if tw_ticks_pending w \<noteq> 0 then
        (case ProcessCurrentSlot (tw_now w level) max_execute level
                (if level = 0
                 then w\<lparr>tw_ticks_pending := (tw_ticks_pending w + delta) mod TICK\<rparr>
                 else w) of
           None \<Rightarrow> None
         | Some (False, w') \<Rightarrow> Some (False, w')
         | Some (True, w') \<Rightarrow>
             if level = 0 then
               Advance_loop ((tw_ticks_pending w' + TICK - 1) mod TICK) max_execute level
                 (w'\<lparr>tw_ticks_pending := 0\<rparr>)
             else Some (True, w'))
      else if delta = 0 then None
      else Advance_loop delta max_execute level w)"
| "Advance_loop delta max_execute level w =
     (if delta = 0 then Some (True, w)
      else if level \<ge> kNumLevels then None
      else
        (case ProcessCurrentSlot ((tw_now w level + 1) mod TICK) max_execute level
                (w\<lparr>tw_now := (tw_now w)(level := (tw_now w level + 1) mod TICK)\<rparr>) of
           None \<Rightarrow> None
         | Some (False, w') \<Rightarrow> Some (False, w'\<lparr>tw_ticks_pending := (delta - 1 + 1) mod TICK\<rparr>)
         | Some (True, w') \<Rightarrow> Advance_loop (delta - 1) max_execute level w'))"
| "ProcessCurrentSlot now max_execute level w =
     (if level \<ge> kNumLevels then None
      else
        (case (if now mod kNumSlots = 0 \<and> level < kMaxLevel
               then Advance 1 max_execute (level + 1) w
               else Some (True, w)) of
           None \<Rightarrow> None
         | Some (False, w') \<Rightarrow> Some (False, w')
         | Some (True, w') \<Rightarrow> drain level (now mod kNumSlots) max_execute w'))"
  by pat_completeness auto
termination
  by (relation "inv_image (less_than <*lex*> less_than <*lex*> less_than)
        (case_sum (\<lambda>(delta, max_execute, level, w). (kNumLevels - level, 2, 0))
           (case_sum (\<lambda>(delta, max_execute, level, w). (kNumLevels - level, 1, delta))
              (\<lambda>(now, max_execute, level, w). (kNumLevels - level, 0, 0))))")
     (auto simp: kMaxLevel_def)

declare Advance.simps [simp del] Advance_loop.simps [simp del] ProcessCurrentSlot.simps [simp del]

declare drain.simps [code]

text \<open>\<^verbatim>\<open>TimerWheel::IsEmpty\<close>.\<close>

definition TimerWheel_IsEmpty :: "TimerWheel \<Rightarrow> bool" where
  "TimerWheel_IsEmpty w =
     (\<forall>i \<in> set [0..<kNumLevels]. \<forall>j \<in> set [0..<kNumSlots]. tw_slots w (i, j) = [])"


section \<open>Timer wheel: scenarios and invariants\<close>

text \<open>Scheduling a list of events with their deltas, and a series of calls of
  \<^verbatim>\<open>Advance\<close> at level 0 that goes on while the calls return true.\<close>

fun schedule_all :: "(nat \<times> nat) list \<Rightarrow> TimerWheel \<Rightarrow> TimerWheel option" where
  "schedule_all [] w = Some w"
| "schedule_all ((e, d) # evs) w =
     (case Schedule e d w of None \<Rightarrow> None | Some w' \<Rightarrow> schedule_all evs w')"

fun advance_all :: "nat list \<Rightarrow> nat \<Rightarrow> TimerWheel \<Rightarrow> (bool \<times> TimerWheel) option" where
  "advance_all [] max_execute w = Some (True, w)"
| "advance_all (d # ds) max_execute w =
     (case Advance d max_execute 0 w of
        None \<Rightarrow> None
      | Some (False, w') \<Rightarrow> Some (False, w')
      | Some (True, w') \<Rightarrow> advance_all ds max_execute w')"

text \<open>The events linked into the wheel.\<close>

definition linked :: "TimerWheel \<Rightarrow> nat set" where
  "linked w = {e. ev_slot w e \<noteq> None}"

text \<open>The level clocks agree with the tick \<open>T\<close>: \<open>now[k] = T >> 8k\<close>.\<close>

definition clock :: "nat \<Rightarrow> TimerWheel \<Rightarrow> bool" where
  "clock T w = (T < TICK \<and> (\<forall>k<kNumLevels. tw_now w k = T div 256 ^ k))"

text \<open>The slot lists and the events' slot pointers describe the same linked lists.\<close>

definition wf_links :: "TimerWheel \<Rightarrow> bool" where
  "wf_links w =
     ((\<forall>e l j. ev_slot w e = Some (l, j) \<longrightarrow>
          l < kNumLevels \<and> j < kNumSlots \<and> e \<in> set (tw_slots w (l, j)))
      \<and> (\<forall>s e. e \<in> set (tw_slots w s) \<longrightarrow> ev_slot w e = Some s)
      \<and> (\<forall>s. distinct (tw_slots w s)))"

text \<open>
  Every linked event sits in the slot of its level that its tick selects, at most one
  rotation ahead of the tick \<open>T\<close>; \<open>strict_from m\<close> adds that at the levels from \<open>m\<close> up,
  and at the levels whose clock does not move at \<open>T\<close>, the slot lies strictly ahead.
\<close>

definition placed :: "nat \<Rightarrow> TimerWheel \<Rightarrow> bool" where
  "placed T w =
     (\<forall>e l j. ev_slot w e = Some (l, j) \<longrightarrow>
        ev_scheduled_at w e < TICK
        \<and> j = (ev_scheduled_at w e div 256 ^ l) mod 256
        \<and> T div 256 ^ l \<le> ev_scheduled_at w e div 256 ^ l
        \<and> ev_scheduled_at w e div 256 ^ l \<le> T div 256 ^ l + 255)"

definition strict_from :: "nat \<Rightarrow> nat \<Rightarrow> TimerWheel \<Rightarrow> bool" where
  "strict_from m T w =
     (\<forall>e l j. ev_slot w e = Some (l, j) \<longrightarrow> (m \<le> l \<or> T mod 256 ^ l \<noteq> 0) \<longrightarrow>
        T div 256 ^ l < ev_scheduled_at w e div 256 ^ l)"

text \<open>The executed events are unlinked, were due by \<open>T\<close>, ran once and in the order of
  their ticks.\<close>

definition log_ok :: "nat \<Rightarrow> TimerWheel \<Rightarrow> bool" where
  "log_ok T w =
     (distinct (executed w)
      \<and> (\<forall>e \<in> set (executed w). ev_slot w e = None \<and> ev_scheduled_at w e \<le> T)
      \<and> sorted (map (ev_scheduled_at w) (executed w)))"

text \<open>The wheel between two calls, at tick \<open>T\<close>, with its linked events among \<open>E\<close>.\<close>

definition wheel_inv :: "nat set \<Rightarrow> nat \<Rightarrow> TimerWheel \<Rightarrow> bool" where
  "wheel_inv E T w =
     (clock T w \<and> tw_ticks_pending w = 0 \<and> wf_links w \<and> placed T w \<and> strict_from 0 T w
      \<and> log_ok T w \<and> linked w \<subseteq> E)"


section \<open>Observers and example worlds\<close>

definition Promise_status :: "World \<Rightarrow> addr \<Rightarrow> PromiseStatus option" where
  "Promise_status w p = map_option ps_status (w_heap w p)"

definition Promise_storage :: "World \<Rightarrow> addr \<Rightarrow> val Result option" where
  "Promise_storage w p = Option.bind (w_heap w p) ps_storage"

definition Promise_callback :: "World \<Rightarrow> addr \<Rightarrow> Callback option" where
  "Promise_callback w p = Option.bind (w_heap w p) ps_callback"

text \<open>The status of a promise in the world an operation returns, if it returns.\<close>

definition status_in :: "World option \<Rightarrow> addr \<Rightarrow> PromiseStatus option" where
  "status_in r p = (case r of None \<Rightarrow> None | Some w \<Rightarrow> Promise_status w p)"

text \<open>
  What \<^verbatim>\<open>Resolve\<close> and \<^verbatim>\<open>Reject\<close> leave behind when nothing runs in place: the stored
  outcome with the matching pre status, and the trampoline posted if a callback is
  attached.
\<close>

definition settled :: "PromiseState \<Rightarrow> val Result \<Rightarrow> PromiseStatus \<Rightarrow> PromiseState" where
  "settled s r st = s\<lparr>ps_storage := Some r, ps_status := st\<rparr>"

definition deferred :: "addr \<Rightarrow> PromiseState \<Rightarrow> nat \<Rightarrow> World \<Rightarrow> World" where
  "deferred a s q w =
     (if ps_callback s = None then put a s w else Post q (TrampolineOf a) (put a s w))"

text \<open>
  What \<^verbatim>\<open>await_suspend\<close> leaves behind on a thread with a current loop: the awaited
  state with the resuming continuation attached on the loop's executor.
\<close>

definition suspended :: "addr \<Rightarrow> PromiseState \<Rightarrow> nat \<Rightarrow> MessageLoop \<Rightarrow> World \<Rightarrow> World" where
  "suspended p s h loop w =
     put p (s\<lparr>ps_callback := Some (CbVoid (AwaitFn h) p),
               ps_executor := Some (MessageLoop_executor loop)\<rparr>) w"

text \<open>One fresh promise at address 0, as \<^verbatim>\<open>Promise<T> p;\<close> makes it.\<close>

definition fresh_promise :: World where
  "fresh_promise = snd (make_shared False World_empty)"

text \<open>The promise \<^verbatim>\<open>MkResolvedPromise(123)\<close> returns, at address 0: pre-fulfilled, with no
  callback.\<close>

definition resolved_promise :: World where
  "resolved_promise =
     (put 0 ((PromiseState_new False)\<lparr>ps_storage := Some (Ok (VInt 123)),
                                      ps_status := kPreFulfilled\<rparr>) World_empty)\<lparr>w_fresh := 1\<rparr>"

text \<open>A promise that has been resolved with its callback on a \<^verbatim>\<open>LocalExecutor\<close>: fulfilled,
  the callback called and released.\<close>

definition fulfilled_promise :: World where
  "fulfilled_promise =
     (put 0 ((PromiseState_new False)\<lparr>ps_status := kFulfilled,
                ps_storage := Some (Ok (VInt 7)),
                ps_executor := Some LocalExecutor\<rparr>) World_empty)
       \<lparr>w_trace := [Called 1 (Ok (VInt 7))], w_fresh := 1\<rparr>"

text \<open>A world whose only promise state, at address 0, has been destroyed.\<close>

definition expired_world :: World where
  "expired_world = PromiseState_destroy 0 (snd (make_shared False World_empty))"

text \<open>One promise at address 0 with a user callback attached: on a \<^verbatim>\<open>LocalExecutor\<close>, on
  no executor, and on the queueing executor 0.\<close>

definition one_promise :: "Executor option \<Rightarrow> World" where
  "one_promise ex =
     (put 0 ((PromiseState_new False)\<lparr>ps_callback := Some (CbVoid (UserVoid 1) 0),
                                      ps_executor := ex\<rparr>) World_empty)\<lparr>w_fresh := 1\<rparr>"

text \<open>
  The chain built by \<^verbatim>\<open>p1 = p0.Then(f, &exec)\<close> followed by \<^verbatim>\<open>p1.Then(g, &exec)\<close>:
  state 0 has state 1 as its next state, state 1 keeps state 0 as its previous one,
  and each has its callback on the queueing executor 0.
\<close>

definition chain_world :: World where
  "chain_world =
     (put 1 ((PromiseState_new False)\<lparr>ps_previous := Some 0,
                                      ps_callback := Some (CbVoid (UserVoid 2) 1),
                                      ps_executor := Some (QueueExecutor 0)\<rparr>)
        (put 0 ((PromiseState_new False)\<lparr>ps_next := Some 1,
                   ps_callback := Some (CbResult 1 ErasedResult 0),
                   ps_executor := Some (QueueExecutor 0)\<rparr>) World_empty))\<lparr>w_fresh := 2\<rparr>"

text \<open>
  The chain built by \<^verbatim>\<open>Promise<void> p1 = p0.Then(f, nullptr)\<close>, where \<^verbatim>\<open>f\<close> returns an
  ok \<^verbatim>\<open>Result<void>\<close>, after \<^verbatim>\<open>p1.Cancel()\<close>: state 1 is the \<^verbatim>\<open>void\<close> specialization and
  is cancelled.
\<close>

definition void_chain_world :: World where
  "void_chain_world =
     (put 1 ((PromiseState_new True)\<lparr>ps_previous := Some 0, ps_status := kCancelled\<rparr>)
        (put 0 ((PromiseState_new False)\<lparr>ps_next := Some 1,
                   ps_callback := Some (CbResult 1 (\<lambda>r. ErasedResultVoid Error_default) 0),
                   ps_executor := None\<rparr>) World_empty))\<lparr>w_fresh := 2\<rparr>"

text \<open>
  The same chain with the generic specialization for state 1:
  \<^verbatim>\<open>Promise<int> p1 = p0.Then(f, nullptr)\<close>, where \<^verbatim>\<open>f\<close> returns its argument, after
  \<^verbatim>\<open>p1.Cancel()\<close>.
\<close>

definition cancelled_chain_world :: World where
  "cancelled_chain_world =
     (put 1 ((PromiseState_new False)\<lparr>ps_previous := Some 0, ps_status := kCancelled\<rparr>)
        (put 0 ((PromiseState_new False)\<lparr>ps_next := Some 1,
                   ps_callback := Some (CbResult 1 ErasedResult 0),
                   ps_executor := None\<rparr>) World_empty))\<lparr>w_fresh := 2\<rparr>"

text \<open>One fresh \<^verbatim>\<open>Promise<void>\<close> at address 0.\<close>

definition fresh_void_promise :: World where
  "fresh_void_promise = snd (make_shared True World_empty)"


section \<open>Status transitions: the specification's graph and a driver\<close>

text \<open>
  The legal transitions as the specification lists them:
  \<open>init \<rightarrow> preFulfilled \<rightarrow> fulfilled\<close>, \<open>init \<rightarrow> preRejected \<rightarrow> rejected\<close>, and
  \<open>{init, preFulfilled, preRejected} \<rightarrow> cancelled\<close>.
\<close>

fun legal_transition :: "PromiseStatus \<Rightarrow> PromiseStatus \<Rightarrow> bool" where
  "legal_transition kInit kPreFulfilled = True"
| "legal_transition kPreFulfilled kFulfilled = True"
| "legal_transition kInit kPreRejected = True"
| "legal_transition kPreRejected kRejected = True"
| "legal_transition kInit kCancelled = True"
| "legal_transition kPreFulfilled kCancelled = True"
| "legal_transition kPreRejected kCancelled = True"
| "legal_transition s t = False"

text \<open>A path of legal transitions; no path of the graph is longer than two steps.\<close>

definition legal_path :: "PromiseStatus \<Rightarrow> PromiseStatus \<Rightarrow> bool" where
  "legal_path s t =
     (s = t \<or> legal_transition s t
      \<or> (legal_transition s kPreFulfilled \<and> legal_transition kPreFulfilled t)
      \<or> (legal_transition s kPreRejected \<and> legal_transition kPreRejected t))"

text \<open>The guarded transitions of \<^verbatim>\<open>PromiseStatusMachine\<close> (all but \<^verbatim>\<open>Force\<close>), the
  statuses a machine passes through under a sequence of them, and the number of times
  a sequence of statuses enters a set.\<close>

datatype Transition = TPreFulfilled | TFulfilled | TPreRejected | TRejected | TCancelled

fun fire :: "Transition \<Rightarrow> PromiseStatus \<Rightarrow> bool \<times> PromiseStatus" where
  "fire TPreFulfilled s = ToPreFulfilled s"
| "fire TFulfilled s = ToFulfilled s"
| "fire TPreRejected s = ToPreRejected s"
| "fire TRejected s = ToRejected s"
| "fire TCancelled s = ToCancelled s"

fun statuses :: "PromiseStatus \<Rightarrow> Transition list \<Rightarrow> PromiseStatus list" where
  "statuses s [] = [s]"
| "statuses s (t # ts) = s # statuses (snd (fire t s)) ts"

fun entries :: "(PromiseStatus \<Rightarrow> bool) \<Rightarrow> PromiseStatus list \<Rightarrow> nat" where
  "entries P (x # y # ys) = (if \<not> P x \<and> P y then 1 else 0) + entries P (y # ys)"
| "entries P xs = 0"

text \<open>The operations a program can apply to the promise states of a world.\<close>

datatype Op =
    OpResolve addr val
  | OpReject addr Error
  | OpCancel addr
  | OpThenVoid addr Functor "Executor option"
  | OpThenResult addr bool nat "val Result \<Rightarrow> Erased" "Executor option"
  | OpRunOne nat
  | OpResolveVoid addr
  | OpRejectVoid addr Error
  | OpResolverResolve PromiseResolver val
  | OpResolverReject PromiseResolver Error
  | OpResolverCancel PromiseResolver

fun apply_op :: "nat \<Rightarrow> Op \<Rightarrow> World \<Rightarrow> World option" where
  "apply_op n (OpResolve a v) w = map_option snd (Resolve n a v w)"
| "apply_op n (OpReject a e) w = map_option snd (Reject n a e w)"
| "apply_op n (OpCancel a) w = Promise_Cancel a w"
| "apply_op n (OpThenVoid a f ex) w = Then_void n a f ex w"
| "apply_op n (OpThenResult a v tag g ex) w = map_option snd (Then_result n a v tag g ex w)"
| "apply_op n (OpRunOne q) w = map_option snd (RunOne n q w)"
| "apply_op n (OpResolveVoid a) w = map_option snd (Resolve_void n a w)"
| "apply_op n (OpRejectVoid a e) w = map_option snd (Reject_void n a e w)"
| "apply_op n (OpResolverResolve r v) w = map_option snd (Resolver_Resolve n r v w)"
| "apply_op n (OpResolverReject r e) w = map_option snd (Resolver_Reject n r e w)"
| "apply_op n (OpResolverCancel r) w = Resolver_Cancel r w"

text \<open>A program: a sequence of operations, run while they return. The observers give
  the trace, a queue and the callback of a state in the world a program returns.\<close>

fun run_ops :: "nat \<Rightarrow> Op list \<Rightarrow> World \<Rightarrow> World option" where
  "run_ops n [] w = Some w"
| "run_ops n (op # ops) w =
     (case apply_op n op w of None \<Rightarrow> None | Some w' \<Rightarrow> run_ops n ops w')"

definition trace_in :: "World option \<Rightarrow> Trace list option" where
  "trace_in r = map_option w_trace r"

definition queue_in :: "World option \<Rightarrow> nat \<Rightarrow> Thunk list option" where
  "queue_in r q = map_option (\<lambda>w. w_queue w q) r"

definition callback_in :: "World option \<Rightarrow> addr \<Rightarrow> Callback option option" where
  "callback_in r p = map_option (\<lambda>w. Promise_callback w p) r"

text \<open>Every state of the generic \<^verbatim>\<open>PromiseState<T>\<close> that is alive in \<open>w\<close> is alive in
  \<open>w'\<close>, with a status reached along legal transitions.\<close>

definition evolves :: "World \<Rightarrow> World \<Rightarrow> bool" where
  "evolves w w' =
     (\<forall>a s. w_heap w a = Some s \<longrightarrow> \<not> ps_void s \<longrightarrow>
        (\<exists>s'. w_heap w' a = Some s' \<and> \<not> ps_void s'
              \<and> legal_path (ps_status s) (ps_status s')))"


section \<open>Properties\<close>

subsection \<open>Unfolding the promise functions one call deep\<close>

lemma Resolve_0: "Resolve 0 a v w = None"
  by (subst Resolve.simps) simp

lemma Resolve_Suc:
  "Resolve (Suc m) a v w =
     (case w_heap w a of
        None \<Rightarrow> None
      | Some s \<Rightarrow>
          if ps_void s then None
          else if IsEmpty (ps_status s) then
            map_option (Pair True)
              (TryInvokeCallback m a
                 (put a (s\<lparr>ps_storage := Some (Ok v),
                           ps_status := snd (ToPreFulfilled (ps_status s))\<rparr>) w))
          else Some (False, w))"
  by (subst Resolve.simps) simp

lemma Reject_0: "Reject 0 a e w = None"
  by (subst Reject.simps) simp

lemma Reject_Suc:
  "Reject (Suc m) a e w =
     (case w_heap w a of
        None \<Rightarrow> None
      | Some s \<Rightarrow>
          if ps_void s then None
          else if IsEmpty (ps_status s) then
            map_option (Pair True)
              (TryInvokeCallback m a
                 (put a (s\<lparr>ps_storage := Some (Err e),
                           ps_status := snd (ToPreRejected (ps_status s))\<rparr>) w))
          else Some (False, w))"
  by (subst Reject.simps) simp

lemma TryInvokeCallback_0: "TryInvokeCallback 0 a w = None"
  by (subst TryInvokeCallback.simps) simp

lemma TryInvokeCallback_Suc:
  "TryInvokeCallback (Suc m) a w =
     (case w_heap w a of
        None \<Rightarrow> None
      | Some s \<Rightarrow>
          if ps_callback s \<noteq> None \<and> IsPending (ps_status s) then
            (case ps_executor s of
               Some (QueueExecutor q) \<Rightarrow> Some (Post q (TrampolineOf a) w)
             | Some LocalExecutor \<Rightarrow> Trampoline m a w
             | None \<Rightarrow> Trampoline m a w)
          else Some w)"
  by (subst TryInvokeCallback.simps) simp

lemma Trampoline_0: "Trampoline 0 a w = None"
  by (subst Trampoline.simps) simp

lemma Trampoline_Suc:
  "Trampoline (Suc m) a w =
     (case w_heap w a of
        None \<Rightarrow> Some w
      | Some s \<Rightarrow>
          if ps_status s = kPreFulfilled then
            (if fst (ToFulfilled (ps_status s))
             then InvokeCallback m a
                    (put a (s\<lparr>ps_status := snd (ToFulfilled (ps_status s))\<rparr>) w)
             else None)
          else if ps_status s = kPreRejected then
            (if fst (ToRejected (ps_status s))
             then InvokeCallback m a
                    (put a (s\<lparr>ps_status := snd (ToRejected (ps_status s))\<rparr>) w)
             else None)
          else Some w)"
  by (subst Trampoline.simps) simp

lemma InvokeCallback_0: "InvokeCallback 0 a w = None"
  by (subst InvokeCallback.simps) simp

lemma InvokeCallback_Suc:
  "InvokeCallback (Suc m) a w =
     (case w_heap w a of
        None \<Rightarrow> None
      | Some s \<Rightarrow>
          if ps_storage s = None then None
          else
            (case ps_callback s of
               None \<Rightarrow> None
             | Some cb \<Rightarrow>
                 (case Callback_body cb a (put a (s\<lparr>ps_callback := None\<rparr>) w) of
                    None \<Rightarrow> None
                  | Some (act, w') \<Rightarrow> perform m act w')))"
  by (subst InvokeCallback.simps) simp

lemma perform_0: "perform 0 act w = None"
  by (subst perform.simps) simp

lemma perform_Suc:
  "perform (Suc m) act w =
     (case act of
        NoAction \<Rightarrow> Some w
      | DoResolve p v \<Rightarrow> map_option snd (Resolve m p v w)
      | DoReject p e \<Rightarrow> map_option snd (Reject m p e w)
      | DoPropagate pp res \<Rightarrow> PropagateResult m pp res w)"
  by (subst perform.simps) simp

lemma PropagateResult_0: "PropagateResult 0 a er w = None"
  by (subst PropagateResult.simps) simp

lemma PropagateResult_Suc:
  "PropagateResult (Suc m) a er w =
     (case w_heap w a of
        None \<Rightarrow> None
      | Some s \<Rightarrow>
          if ps_void s then
            (case er of
               ErasedResult r \<Rightarrow> None
             | ErasedResultVoid e \<Rightarrow>
                 if IsDone (ps_status s) then None
                 else
                   (case ps_next s of
                      None \<Rightarrow>
                        Some (put a (s\<lparr>ps_storage_void := Some e,
                                       ps_status := (if Result_void_IsOk e
                                                     then Force kFulfilled (ps_status s)
                                                     else Force kRejected (ps_status s))\<rparr>) w)
                    | Some nx \<Rightarrow>
                        PropagateResult m nx (ErasedResultVoid e)
                          (put a (s\<lparr>ps_storage_void := Some e,
                                    ps_status := (if Result_void_IsOk e
                                                  then Force kFulfilled (ps_status s)
                                                  else Force kRejected (ps_status s))\<rparr>) w)))
          else
            (case er of
               ErasedResultVoid e \<Rightarrow> None
             | ErasedResult r \<Rightarrow>
                 if Result_IsOk r then
                   (case PassResult r of
                      None \<Rightarrow> None
                    | Some (v, r') \<Rightarrow> map_option snd (Resolve m a v w))
                 else
                   (case PassError r of
                      None \<Rightarrow> None
                    | Some (e, r') \<Rightarrow> map_option snd (Reject m a e w))))"
  by (subst PropagateResult.simps) simp

lemmas promise_Suc = Resolve_Suc Reject_Suc TryInvokeCallback_Suc Trampoline_Suc
  InvokeCallback_Suc perform_Suc PropagateResult_Suc

lemmas promise_0 = Resolve_0 Reject_0 TryInvokeCallback_0 Trampoline_0
  InvokeCallback_0 perform_0 PropagateResult_0

lemmas status_defs = IsEmpty_def IsPreFulfilled_def IsFulfilled_def IsPreRejected_def
  IsRejected_def IsCancelled_def IsPending_def IsDone_def IsSatisfied_def IsUnsatisfied_def
  IsSettled_def To_def ToPreFulfilled_def ToFulfilled_def ToPreRejected_def ToRejected_def
  Force_def

lemma heap_put [simp]: "w_heap (put a s w) b = (if b = a then Some s else w_heap w b)"
  by (simp add: put_def)

lemma put_fields [simp]:
  "w_ctx (put a s w) = w_ctx w" "w_queue (put a s w) = w_queue w"
  "w_trace (put a s w) = w_trace w" "w_fresh (put a s w) = w_fresh w"
  by (simp_all add: put_def)


subsection \<open>The example worlds are built by the operations\<close>

lemma chain_world_built:
  "Option.bind (Then_result 3 0 False 1 ErasedResult (Some (QueueExecutor 0)) (snd (make_shared False World_empty)))
     (\<lambda>(nx, w). Then_void 3 nx (UserVoid 2) (Some (QueueExecutor 0)) w) = Some chain_world"
  by (simp add: Then_result_def Then_void_def Attach_next_def Attach_void_def AddCallback_def
      Watch_def make_shared_def TryInvokeCallback_Suc numeral_3_eq_3 chain_world_def put_def
      World_empty_def PromiseState_new_def status_defs fun_upd_twist)

lemma one_promise_built:
  "Then_void 3 0 (UserVoid 1) ex (snd (make_shared False World_empty)) = Some (one_promise ex)"
  by (simp add: Then_void_def Attach_void_def AddCallback_def
      make_shared_def TryInvokeCallback_Suc numeral_3_eq_3 one_promise_def put_def
      World_empty_def PromiseState_new_def status_defs)

lemma void_chain_world_built:
  "Option.bind (Then_result 3 0 True 1 (\<lambda>r. ErasedResultVoid Error_default) None
                  (snd (make_shared False World_empty)))
     (\<lambda>(nx, w). Promise_Cancel nx w) = Some void_chain_world"
  by (simp add: Then_result_def Attach_next_def AddCallback_def Promise_Cancel_def Cancel_def
      Watch_def make_shared_def TryInvokeCallback_Suc numeral_3_eq_3 void_chain_world_def put_def
      World_empty_def PromiseState_new_def status_defs fun_upd_twist)

subsection \<open>Status paths of generic promise states\<close>

lemma legal_path_refl [simp]: "legal_path s s"
  by (simp add: legal_path_def)

lemma legal_path_trans: "legal_path s t \<Longrightarrow> legal_path t u \<Longrightarrow> legal_path s u"
  by (cases s; cases t; cases u; simp add: legal_path_def)

lemma legal_path_final:
  "legal_path s t \<Longrightarrow> s = kFulfilled \<or> s = kRejected \<or> s = kCancelled \<Longrightarrow> t = s"
  by (cases s; cases t; simp add: legal_path_def)

lemma fire_legal:
  "fire t s = (b, s') \<Longrightarrow> (b \<and> legal_transition s s') \<or> (\<not> b \<and> s' = s)"
  by (cases t; cases s; auto simp: status_defs)

lemma evolves_refl [simp]: "evolves w w"
  by (auto simp: evolves_def)

lemma evolves_trans: "evolves w w' \<Longrightarrow> evolves w' w'' \<Longrightarrow> evolves w w''"
  unfolding evolves_def by (meson legal_path_trans)

lemma evolves_same_heap: "w_heap w' = w_heap w \<Longrightarrow> evolves w w'"
  by (auto simp: evolves_def)

lemma evolves_put:
  "w_heap w a = Some s \<Longrightarrow> ps_void s' = ps_void s
   \<Longrightarrow> (\<not> ps_void s \<Longrightarrow> legal_path (ps_status s) (ps_status s')) \<Longrightarrow> evolves w (put a s' w)"
  by (auto simp: evolves_def)

lemma evolves_put_trans:
  "w_heap w a = Some s \<Longrightarrow> ps_void s' = ps_void s
   \<Longrightarrow> (\<not> ps_void s \<Longrightarrow> legal_path (ps_status s) (ps_status s'))
   \<Longrightarrow> evolves (put a s' w) w' \<Longrightarrow> evolves w w'"
  using evolves_put evolves_trans by blast

lemma Functor_body_evolves: "Functor_body f a w = Some (act, w') \<Longrightarrow> evolves w w'"
  unfolding Functor_body_def evolves_def
  by (auto split: option.splits Functor.splits if_splits simp: Let_def)

lemma Callback_body_evolves: "Callback_body cb a w = Some (act, w') \<Longrightarrow> evolves w w'"
  unfolding Callback_body_def
  by (auto split: option.splits Callback.splits if_splits
      intro: Functor_body_evolves evolves_same_heap)


lemma promise_calls_evolve:
  "(\<forall>a v w b w'. Resolve n a v w = Some (b, w') \<longrightarrow> evolves w w')
 \<and> (\<forall>a e w b w'. Reject n a e w = Some (b, w') \<longrightarrow> evolves w w')
 \<and> (\<forall>a w w'. TryInvokeCallback n a w = Some w' \<longrightarrow> evolves w w')
 \<and> (\<forall>a w w'. Trampoline n a w = Some w' \<longrightarrow> evolves w w')
 \<and> (\<forall>a w w'. InvokeCallback n a w = Some w' \<longrightarrow> evolves w w')
 \<and> (\<forall>act w w'. perform n act w = Some w' \<longrightarrow> evolves w w')
 \<and> (\<forall>a er w w'. PropagateResult n a er w = Some w' \<longrightarrow> evolves w w')"
proof (induction n)
  case 0
  show ?case by (simp add: promise_0)
next
  case (Suc n)
  note IH = Suc
  have ih_res: "\<And>a v w b w'. Resolve n a v w = Some (b, w') \<Longrightarrow> evolves w w'"
    using IH by meson
  have ih_rej: "\<And>a e w b w'. Reject n a e w = Some (b, w') \<Longrightarrow> evolves w w'"
    using IH by meson
  have ih_try: "\<And>a w w'. TryInvokeCallback n a w = Some w' \<Longrightarrow> evolves w w'"
    using IH by meson
  have ih_tra: "\<And>a w w'. Trampoline n a w = Some w' \<Longrightarrow> evolves w w'"
    using IH by meson
  have ih_inv: "\<And>a w w'. InvokeCallback n a w = Some w' \<Longrightarrow> evolves w w'"
    using IH by meson
  have ih_per: "\<And>act w w'. perform n act w = Some w' \<Longrightarrow> evolves w w'"
    using IH by meson
  have ih_pro: "\<And>a er w w'. PropagateResult n a er w = Some w' \<Longrightarrow> evolves w w'"
    using IH by meson
  have 1: "evolves w w'" if "Resolve (Suc n) a v w = Some (b, w')" for a v w b w'
    using that
    by (auto simp: Resolve_Suc status_defs legal_path_def split: option.splits if_splits
        dest!: ih_try elim!: evolves_put_trans [rotated 3])
  have 2: "evolves w w'" if "Reject (Suc n) a e w = Some (b, w')" for a e w b w'
    using that
    by (auto simp: Reject_Suc status_defs legal_path_def split: option.splits if_splits
        dest!: ih_try elim!: evolves_put_trans [rotated 3])
  have 3: "evolves w w'" if "TryInvokeCallback (Suc n) a w = Some w'" for a w w'
    using that
    by (auto simp: TryInvokeCallback_Suc Post_def split: option.splits if_splits Executor.splits
        dest: ih_tra intro: evolves_same_heap)
  have 4: "evolves w w'" if "Trampoline (Suc n) a w = Some w'" for a w w'
    using that
    by (auto simp: Trampoline_Suc status_defs legal_path_def split: option.splits if_splits
        dest!: ih_inv elim!: evolves_put_trans [rotated 3])
  have 5: "evolves w w'" if "InvokeCallback (Suc n) a w = Some w'" for a w w'
  proof -
    from that obtain s cb act w1 where s: "w_heap w a = Some s"
      and cb: "Callback_body cb a (put a (s\<lparr>ps_callback := None\<rparr>) w) = Some (act, w1)"
      and p: "perform n act w1 = Some w'"
      by (auto simp: InvokeCallback_Suc split: option.splits if_splits)
    have "evolves w (put a (s\<lparr>ps_callback := None\<rparr>) w)"
      using s by (auto intro: evolves_put)
    then show ?thesis
      using Callback_body_evolves [OF cb] ih_per [OF p] evolves_trans by blast
  qed
  have 6: "evolves w w'" if "perform (Suc n) act w = Some w'" for act w w'
    using that
    by (auto simp: perform_Suc split: Action.splits dest: ih_res ih_rej ih_pro)
  have 7: "evolves w w'" if "PropagateResult (Suc n) a er w = Some w'" for a er w w'
    using that
    by (auto simp: PropagateResult_Suc split: option.splits if_splits Erased.splits
        dest: ih_res ih_rej dest!: ih_pro intro: evolves_put elim!: evolves_put_trans [rotated 3])
  show ?case using 1 2 3 4 5 6 7 by blast
qed


lemma Resolve_evolves: "Resolve n a v w = Some (b, w') \<Longrightarrow> evolves w w'"
  using promise_calls_evolve [of n] by meson

lemma Reject_evolves: "Reject n a e w = Some (b, w') \<Longrightarrow> evolves w w'"
  using promise_calls_evolve [of n] by meson

lemma TryInvokeCallback_evolves: "TryInvokeCallback n a w = Some w' \<Longrightarrow> evolves w w'"
  using promise_calls_evolve [of n] by meson

lemma Trampoline_evolves: "Trampoline n a w = Some w' \<Longrightarrow> evolves w w'"
  using promise_calls_evolve [of n] by meson

lemma PropagateResult_evolves: "PropagateResult n a er w = Some w' \<Longrightarrow> evolves w w'"
  using promise_calls_evolve [of n] by meson

lemma apply_op_evolves:
  assumes "apply_op n op w = Some w'" and fresh: "w_heap w (w_fresh w) = None"
  shows "evolves w w'"
proof (cases op)
  case (OpResolve a v)
  with assms show ?thesis by (auto dest: Resolve_evolves)
next
  case (OpReject a e)
  with assms show ?thesis by (auto dest: Reject_evolves)
next
  case (OpCancel a)
  with assms show ?thesis
    by (auto simp: Promise_Cancel_def Cancel_def evolves_def status_defs legal_path_def
        split: option.splits if_splits)
next
  case (OpThenVoid a f ex)
  with assms obtain s where s: "w_heap w a = Some s"
    and t: "TryInvokeCallback n a (put a (s\<lparr>ps_callback := Some (CbVoid f a), ps_executor := ex\<rparr>) w) = Some w'"
    by (auto simp: Then_void_def Attach_void_def AddCallback_def split: option.splits if_splits)
  have "evolves w (put a (s\<lparr>ps_callback := Some (CbVoid f a), ps_executor := ex\<rparr>) w)"
    using s by (auto intro: evolves_put)
  then show ?thesis using TryInvokeCallback_evolves [OF t] by (rule evolves_trans)
next
  case (OpThenResult a v tag g ex)
  with assms obtain w1 w2 s where m: "w1 = snd (make_shared v w)"
    and wa: "Watch (w_fresh w) a w1 = Some w2"
    and s: "w_heap w2 a = Some s"
    and t: "TryInvokeCallback n a (put a (s\<lparr>ps_callback := Some (CbResult tag g a), ps_executor := ex\<rparr>) w2) = Some w'"
    by (auto simp: Then_result_def Attach_next_def AddCallback_def make_shared_def
        split: option.splits if_splits prod.splits)
  have 1: "evolves w w1"
    using fresh by (auto simp: m make_shared_def evolves_def)
  have 2: "evolves w1 w2"
    using wa by (auto simp: Watch_def evolves_def split: option.splits if_splits)
  have 3: "evolves w2 (put a (s\<lparr>ps_callback := Some (CbResult tag g a), ps_executor := ex\<rparr>) w2)"
    using s by (auto intro: evolves_put)
  have 4: "evolves (put a (s\<lparr>ps_callback := Some (CbResult tag g a), ps_executor := ex\<rparr>) w2) w'"
    using t by (rule TryInvokeCallback_evolves)
  show ?thesis using evolves_trans [OF evolves_trans [OF evolves_trans [OF 1 2] 3] 4] .
next
  case (OpRunOne q)
  with assms show ?thesis
  proof (cases "w_queue w q")
    case Nil
    with OpRunOne assms show ?thesis by (auto simp: RunOne_def)
  next
    case (Cons t ts)
    then obtain a where t: "t = TrampolineOf a" by (cases t) auto
    with Cons OpRunOne assms
    have "Trampoline n a (w\<lparr>w_queue := (w_queue w)(q := ts)\<rparr>) = Some w'"
      by (auto simp: RunOne_def)
    then have "evolves (w\<lparr>w_queue := (w_queue w)(q := ts)\<rparr>) w'"
      by (rule Trampoline_evolves)
    moreover have "evolves w (w\<lparr>w_queue := (w_queue w)(q := ts)\<rparr>)"
      by (rule evolves_same_heap) simp
    ultimately show ?thesis using evolves_trans by meson
  qed
next
  case (OpResolveVoid a)
  with assms show ?thesis
    by (auto simp: Resolve_void_def split: option.splits if_splits dest: PropagateResult_evolves)
next
  case (OpRejectVoid a e)
  with assms show ?thesis
    by (auto simp: Reject_void_def split: option.splits if_splits dest: PropagateResult_evolves)
next
  case (OpResolverResolve r v)
  with assms show ?thesis
    by (auto simp: Resolver_Resolve_def split: option.splits dest: Resolve_evolves)
next
  case (OpResolverReject r e)
  with assms show ?thesis
    by (auto simp: Resolver_Reject_def split: option.splits dest: Reject_evolves)
next
  case (OpResolverCancel r)
  with assms show ?thesis
    by (auto simp: Resolver_Cancel_def Cancel_def evolves_def status_defs legal_path_def
        split: option.splits if_splits)
qed

lemma statuses_hd: "statuses s ts = s # tl (statuses s ts)"
  by (cases ts) simp_all

lemma entries_statuses_Cons:
  "entries P (x # statuses s ts) = (if \<not> P x \<and> P s then 1 else 0) + entries P (statuses s ts)"
  by (subst statuses_hd, subst (2) statuses_hd) simp

lemma entries_pending_bound:
  "entries IsPending (statuses s ts) \<le> (if s = kInit then 1 else 0)"
proof (induction ts arbitrary: s)
  case Nil
  show ?case by simp
next
  case (Cons t ts)
  show ?case
    using Cons.IH [of "snd (fire t s)"]
    by (cases t; cases s; simp add: entries_statuses_Cons status_defs)
qed

lemma entries_done_bound:
  "entries IsDone (statuses s ts) \<le> (if s = kInit \<or> s = kPreFulfilled \<or> s = kPreRejected then 1 else 0)"
proof (induction ts arbitrary: s)
  case Nil
  show ?case by simp
next
  case (Cons t ts)
  show ?case
    using Cons.IH [of "snd (fire t s)"]
    by (cases t; cases s; simp add: entries_statuses_Cons status_defs)
qed

subsection \<open>Promise status transitions\<close>

text \<open>
  Claim C2 fails on the code: a state that is cancelled can change its status again.
  The promise \<^verbatim>\<open>p1\<close> returned by \<^verbatim>\<open>p0.Then(f, nullptr)\<close> for a functor returning
  \<^verbatim>\<open>Result<void>\<close> has been cancelled; resolving \<^verbatim>\<open>p0\<close> then runs \<^verbatim>\<open>f\<close> in place and hands
  its result to \<^verbatim>\<open>PromiseState<void>::PropagateResult\<close>, which asserts only that the state
  is not done and then sets the status with the unguarded \<^verbatim>\<open>Force\<close>: \<^verbatim>\<open>p1\<close> goes from
  cancelled to fulfilled.
\<close>

theorem cancelled_void_state_is_forced_to_fulfilled:
  "Promise_status void_chain_world 1 = Some kCancelled
   \<and> map_option fst (Resolve 6 0 (VInt 1) void_chain_world) = Some True
   \<and> status_in (apply_op 6 (OpResolve 0 (VInt 1)) void_chain_world) 1 = Some kFulfilled"
  by (simp add: eval_nat_numeral promise_Suc void_chain_world_def PromiseState_new_def status_defs
      Callback_body_def Functor_body_def put_def World_empty_def Promise_status_def status_in_def
      Result_void_IsOk_def Error_bool_def Has_def Error_default_def)

text \<open>
  The other ways into a cancelled state are guarded by \<^verbatim>\<open>IsEmpty\<close>: on the same chain with
  a generic \<^verbatim>\<open>p1\<close>, \<^verbatim>\<open>PromiseState<T>::PropagateResult\<close> goes through \<^verbatim>\<open>Resolve\<close> and leaves
  \<^verbatim>\<open>p1\<close> cancelled, and \<^verbatim>\<open>PromiseState<void>::Resolve\<close> and \<^verbatim>\<open>Reject\<close> return false on the
  cancelled state.
\<close>

lemma cancelled_chain_world_built:
  "Option.bind (Then_result 3 0 False 1 ErasedResult None (snd (make_shared False World_empty)))
     (\<lambda>(nx, w). Promise_Cancel nx w) = Some cancelled_chain_world"
  by (simp add: Then_result_def Attach_next_def AddCallback_def Promise_Cancel_def Cancel_def
      Watch_def make_shared_def TryInvokeCallback_Suc numeral_3_eq_3 cancelled_chain_world_def put_def
      World_empty_def PromiseState_new_def status_defs fun_upd_twist)

lemma cancelled_state_is_guarded_elsewhere:
  "Promise_status cancelled_chain_world 1 = Some kCancelled
   \<and> map_option fst (Resolve 7 0 (VInt 1) cancelled_chain_world) = Some True
   \<and> status_in (apply_op 7 (OpResolve 0 (VInt 1)) cancelled_chain_world) 1 = Some kCancelled
   \<and> Resolve_void 3 1 void_chain_world = Some (False, void_chain_world)
   \<and> Reject_void 3 1 e void_chain_world = Some (False, void_chain_world)"
  by (simp add: eval_nat_numeral promise_Suc cancelled_chain_world_def void_chain_world_def
      PromiseState_new_def status_defs Callback_body_def Functor_body_def put_def World_empty_def
      Promise_status_def status_in_def Resolve_void_def Reject_void_def)

text \<open>
  The generic \<^verbatim>\<open>PromiseState<T>\<close> keeps to the graph of the specification. Every guarded
  transition of the status machine either fires along a legal transition or leaves the
  status unchanged; under any sequence of guarded transitions from \<open>init\<close> the status
  enters \<open>{preFulfilled, preRejected}\<close> at most once and \<open>{fulfilled, rejected}\<close> at most
  once; \<^verbatim>\<open>Resolve\<close> and \<^verbatim>\<open>Reject\<close> return true, after storing the outcome and moving to the
  matching pre status, exactly when the status is \<open>init\<close>, and otherwise return false
  and change nothing; and every operation of \<open>Op\<close> that returns moves each generic state
  along a path of legal transitions, so a generic state that is fulfilled, rejected or
  cancelled keeps its status under these operations.
\<close>

theorem generic_promise_status_transitions:
  "(fire t st = (fired, st') \<longrightarrow> (fired \<and> legal_transition st st') \<or> (\<not> fired \<and> st' = st))
   \<and> entries IsPending (statuses kInit ts) \<le> 1
   \<and> entries IsDone (statuses kInit ts) \<le> 1
   \<and> (w_heap w a = Some s \<and> \<not> ps_void s \<longrightarrow>
        Resolve (Suc n) a v w =
          (if ps_status s = kInit
           then map_option (Pair True)
                  (TryInvokeCallback n a
                     (put a (s\<lparr>ps_storage := Some (Ok v), ps_status := kPreFulfilled\<rparr>) w))
           else Some (False, w))
        \<and> Reject (Suc n) a e w =
          (if ps_status s = kInit
           then map_option (Pair True)
                  (TryInvokeCallback n a
                     (put a (s\<lparr>ps_storage := Some (Err e), ps_status := kPreRejected\<rparr>) w))
           else Some (False, w)))
   \<and> (apply_op n op w = Some w' \<and> w_heap w (w_fresh w) = None
        \<and> w_heap w a = Some s \<and> \<not> ps_void s \<longrightarrow>
        (\<exists>s'. w_heap w' a = Some s' \<and> legal_path (ps_status s) (ps_status s')
              \<and> (ps_status s \<in> {kFulfilled, kRejected, kCancelled} \<longrightarrow>
                   ps_status s' = ps_status s)))"
proof (intro conjI impI)
  show "(fired \<and> legal_transition st st') \<or> (\<not> fired \<and> st' = st)" if "fire t st = (fired, st')"
    using that by (rule fire_legal)
  show "entries IsPending (statuses kInit ts) \<le> 1"
    using entries_pending_bound [of kInit ts] by simp
  show "entries IsDone (statuses kInit ts) \<le> 1"
    using entries_done_bound [of kInit ts] by simp
next
  assume "w_heap w a = Some s \<and> \<not> ps_void s"
  then show "Resolve (Suc n) a v w =
          (if ps_status s = kInit
           then map_option (Pair True)
                  (TryInvokeCallback n a
                     (put a (s\<lparr>ps_storage := Some (Ok v), ps_status := kPreFulfilled\<rparr>) w))
           else Some (False, w))"
    by (simp add: Resolve_Suc status_defs)
next
  assume "w_heap w a = Some s \<and> \<not> ps_void s"
  then show "Reject (Suc n) a e w =
          (if ps_status s = kInit
           then map_option (Pair True)
                  (TryInvokeCallback n a
                     (put a (s\<lparr>ps_storage := Some (Err e), ps_status := kPreRejected\<rparr>) w))
           else Some (False, w))"
    by (simp add: Reject_Suc status_defs)
next
  assume h: "apply_op n op w = Some w' \<and> w_heap w (w_fresh w) = None
        \<and> w_heap w a = Some s \<and> \<not> ps_void s"
  then have "evolves w w'" using apply_op_evolves [of n op w w'] by simp
  with h obtain s' where s': "w_heap w' a = Some s'" "legal_path (ps_status s) (ps_status s')"
    unfolding evolves_def by blast
  then show "\<exists>s'. w_heap w' a = Some s' \<and> legal_path (ps_status s) (ps_status s')
              \<and> (ps_status s \<in> {kFulfilled, kRejected, kCancelled} \<longrightarrow>
                   ps_status s' = ps_status s)"
    using legal_path_final [of "ps_status s" "ps_status s'"] by auto
qed

theorem generic_promise_status_transitions_witness:
  "fire TPreFulfilled kInit = (True, kPreFulfilled)
   \<and> legal_transition kInit kPreFulfilled
   \<and> entries IsPending (statuses kInit [TPreFulfilled, TFulfilled, TCancelled]) \<le> 1
   \<and> w_heap (one_promise (Some (QueueExecutor 0))) 0
        = Some ((PromiseState_new False)\<lparr>ps_callback := Some (CbVoid (UserVoid 1) 0),
                                          ps_executor := Some (QueueExecutor 0)\<rparr>)
   \<and> apply_op 2 (OpResolve 0 (VInt 7)) (one_promise (Some (QueueExecutor 0)))
        = Some (deferred 0 (settled ((PromiseState_new False)\<lparr>ps_callback := Some (CbVoid (UserVoid 1) 0),
                                          ps_executor := Some (QueueExecutor 0)\<rparr>) (Ok (VInt 7)) kPreFulfilled) 0
                  (one_promise (Some (QueueExecutor 0))))
   \<and> w_heap (one_promise (Some (QueueExecutor 0))) (w_fresh (one_promise (Some (QueueExecutor 0)))) = None
   \<and> (\<exists>s'. w_heap (deferred 0 (settled ((PromiseState_new False)\<lparr>ps_callback := Some (CbVoid (UserVoid 1) 0),
                                          ps_executor := Some (QueueExecutor 0)\<rparr>) (Ok (VInt 7)) kPreFulfilled) 0
                  (one_promise (Some (QueueExecutor 0)))) 0 = Some s'
            \<and> legal_path kInit (ps_status s'))"
proof -
  let ?S = "(PromiseState_new False)\<lparr>ps_callback := Some (CbVoid (UserVoid 1) 0),
                                     ps_executor := Some (QueueExecutor 0)\<rparr>"
  let ?W = "one_promise (Some (QueueExecutor 0))"
  let ?W' = "deferred 0 (settled ?S (Ok (VInt 7)) kPreFulfilled) 0 ?W"
  have h1: "fire TPreFulfilled kInit = (True, kPreFulfilled)"
    by (simp add: status_defs)
  have h2: "w_heap ?W 0 = Some ?S" "\<not> ps_void ?S" "ps_status ?S = kInit"
    by (simp_all add: one_promise_def PromiseState_new_def)
  have h3: "apply_op 2 (OpResolve 0 (VInt 7)) ?W = Some ?W'"
    using h2 by (simp add: eval_nat_numeral promise_Suc status_defs deferred_def settled_def
        PromiseState_new_def)
  have h4: "w_heap ?W (w_fresh ?W) = None"
    by (simp add: one_promise_def World_empty_def)
  show ?thesis
    using generic_promise_status_transitions
      [of TPreFulfilled kInit True kPreFulfilled "[TPreFulfilled, TFulfilled, TCancelled]"
          ?W 0 ?S 2 "VInt 7" Error_default "OpResolve 0 (VInt 7)" ?W']
      h1 h2 h3 h4
    by (simp add: status_defs)
qed

subsection \<open>Settlement and the executor\<close>

lemmas observer_defs = status_in_def trace_in_def queue_in_def callback_in_def
  Promise_status_def Promise_callback_def

lemma resolve_deferred:
  assumes "w_heap w a = Some s" and "\<not> ps_void s" and "ps_status s = kInit"
    and "ps_callback s = None \<or> ps_executor s = Some (QueueExecutor q)"
  shows "Resolve (Suc (Suc n)) a v w
           = Some (True, deferred a (settled s (Ok v) kPreFulfilled) q w)"
    and "Reject (Suc (Suc n)) a e w
           = Some (True, deferred a (settled s (Err e) kPreRejected) q w)"
    and "Promise_status (deferred a (settled s (Ok v) kPreFulfilled) q w) a = Some kPreFulfilled"
    and "Promise_status (deferred a (settled s (Err e) kPreRejected) q w) a = Some kPreRejected"
    and "Promise_callback (deferred a (settled s (Ok v) kPreFulfilled) q w) a = ps_callback s"
    and "w_trace (deferred a (settled s (Ok v) kPreFulfilled) q w) = w_trace w"
    and "w_trace (deferred a (settled s (Err e) kPreRejected) q w) = w_trace w"
    and "w_queue (deferred a (settled s (Ok v) kPreFulfilled) q w) q
           = (if ps_callback s = None then w_queue w q else w_queue w q @ [TrampolineOf a])"
    and "Trampoline (Suc m) a (deferred a (settled s (Ok v) kPreFulfilled) q w)
           = InvokeCallback m a
               (put a (settled s (Ok v) kFulfilled) (deferred a (settled s (Ok v) kPreFulfilled) q w))"
    and "Trampoline (Suc m) a (deferred a (settled s (Err e) kPreRejected) q w)
           = InvokeCallback m a
               (put a (settled s (Err e) kRejected) (deferred a (settled s (Err e) kPreRejected) q w))"
  using assms
  by (auto simp: promise_Suc status_defs deferred_def settled_def Post_def Promise_status_def
      Promise_callback_def)

lemma resolve_deferred_again:
  assumes "w_heap w a = Some s" and "\<not> ps_void s"
  shows "Resolve (Suc n) a v' (deferred a (settled s (Ok v) kPreFulfilled) q w)
           = Some (False, deferred a (settled s (Ok v) kPreFulfilled) q w)"
    and "Reject (Suc n) a e' (deferred a (settled s (Ok v) kPreFulfilled) q w)
           = Some (False, deferred a (settled s (Ok v) kPreFulfilled) q w)"
    and "Resolve (Suc n) a v' (deferred a (settled s (Err e) kPreRejected) q w)
           = Some (False, deferred a (settled s (Err e) kPreRejected) q w)"
    and "Reject (Suc n) a e' (deferred a (settled s (Err e) kPreRejected) q w)
           = Some (False, deferred a (settled s (Err e) kPreRejected) q w)"
  using assms
  by (auto simp: promise_Suc status_defs deferred_def settled_def Post_def)

lemma resolve_then_run:
  assumes "w_heap w a = Some s" and "ps_status s = kInit" and "\<not> ps_void s"
    and "ps_callback s = Some (CbVoid (UserVoid tag) a)" and "ps_next s = None"
    and "ps_executor s = Some (QueueExecutor q)" and "w_queue w q = []"
  shows "status_in (run_ops (Suc (Suc (Suc n))) [OpResolve a v, OpRunOne q] w) a = Some kFulfilled"
    and "trace_in (run_ops (Suc (Suc (Suc n))) [OpResolve a v, OpRunOne q] w)
           = Some (w_trace w @ [Called tag (Ok v)])"
    and "callback_in (run_ops (Suc (Suc (Suc n))) [OpResolve a v, OpRunOne q] w) a = Some None"
    and "queue_in (run_ops (Suc (Suc (Suc n))) [OpResolve a v, OpRunOne q] w) q = Some []"
    and "status_in (run_ops (Suc (Suc (Suc n))) [OpReject a e, OpRunOne q] w) a = Some kRejected"
    and "trace_in (run_ops (Suc (Suc (Suc n))) [OpReject a e, OpRunOne q] w)
           = Some (w_trace w @ [Called tag (Err e)])"
    and "callback_in (run_ops (Suc (Suc (Suc n))) [OpReject a e, OpRunOne q] w) a = Some None"
    and "queue_in (run_ops (Suc (Suc (Suc n))) [OpReject a e, OpRunOne q] w) q = Some []"
  using assms
  by (auto simp: RunOne_def Post_def promise_Suc status_defs Callback_body_def Functor_body_def
      observer_defs)

lemma resolve_then_attach_in_place:
  assumes "w_heap w a = Some s" and "ps_status s = kInit" and "\<not> ps_void s"
    and "ps_callback s = Some (CbVoid (UserVoid tag) a)" and "ps_next s = None"
    and "ps_executor s = Some (QueueExecutor q)" and "w_queue w q = []"
  shows "status_in (run_ops (Suc (Suc (Suc (Suc n)))) [OpResolve a v, OpThenVoid a (UserVoid g) None] w) a
           = Some kFulfilled"
    and "trace_in (run_ops (Suc (Suc (Suc (Suc n)))) [OpResolve a v, OpThenVoid a (UserVoid g) None] w)
           = Some (w_trace w @ [Called g (Ok v)])"
    and "queue_in (run_ops (Suc (Suc (Suc (Suc n)))) [OpResolve a v, OpThenVoid a (UserVoid g) None] w) q
           = Some [TrampolineOf a]"
    and "status_in (run_ops (Suc (Suc (Suc (Suc n))))
                      [OpResolve a v, OpThenVoid a (UserVoid g) None, OpRunOne q] w) a
           = Some kFulfilled"
    and "trace_in (run_ops (Suc (Suc (Suc (Suc n))))
                      [OpResolve a v, OpThenVoid a (UserVoid g) None, OpRunOne q] w)
           = Some (w_trace w @ [Called g (Ok v)])"
    and "queue_in (run_ops (Suc (Suc (Suc (Suc n))))
                      [OpResolve a v, OpThenVoid a (UserVoid g) None, OpRunOne q] w) q
           = Some []"
  using assms
  by (auto simp: RunOne_def Post_def promise_Suc status_defs Callback_body_def Functor_body_def
      Then_void_def Attach_void_def AddCallback_def observer_defs)

lemma resolve_in_place:
  assumes "w_heap w a = Some s" and "ps_status s = kInit" and "\<not> ps_void s"
    and "ps_callback s = Some (CbVoid (UserVoid tag) a)" and "ps_next s = None"
    and "ps_executor s = None \<or> ps_executor s = Some LocalExecutor"
  shows "map_option fst (Resolve (Suc (Suc (Suc (Suc (Suc n))))) a v w) = Some True"
    and "status_in (run_ops (Suc (Suc (Suc (Suc (Suc n))))) [OpResolve a v] w) a = Some kFulfilled"
    and "trace_in (run_ops (Suc (Suc (Suc (Suc (Suc n))))) [OpResolve a v] w)
           = Some (w_trace w @ [Called tag (Ok v)])"
    and "map_option fst (Reject (Suc (Suc (Suc (Suc (Suc n))))) a e w) = Some True"
    and "status_in (run_ops (Suc (Suc (Suc (Suc (Suc n))))) [OpReject a e] w) a = Some kRejected"
    and "trace_in (run_ops (Suc (Suc (Suc (Suc (Suc n))))) [OpReject a e] w)
           = Some (w_trace w @ [Called tag (Err e)])"
  using assms
  by (auto simp: promise_Suc status_defs Callback_body_def Functor_body_def observer_defs)

lemma resolve_void_forces:
  assumes "w_heap w a = Some s" and "ps_status s = kInit" and "ps_void s" and "ps_next s = None"
  shows "Resolve_void (Suc n) a w
           = Some (True, put a (s\<lparr>ps_storage_void := Some Error_default,
                                   ps_status := kFulfilled\<rparr>) w)"
    and "Reject_void (Suc n) a e w
           = Some (True, put a (s\<lparr>ps_storage_void := Some e,
                                   ps_status := (if Result_void_IsOk e then kFulfilled
                                                 else kRejected)\<rparr>) w)"
  using assms
  by (auto simp: Resolve_void_def Reject_void_def promise_Suc status_defs Result_void_IsOk_def
      Error_bool_def Has_def Error_default_def)

lemma fresh_void_promise_heap: "w_heap fresh_void_promise 0 = Some (PromiseState_new True)"
  by (simp add: fresh_void_promise_def make_shared_def World_empty_def)

text \<open>
  Claim C3, as stated, fails: the terminal status can be reached inside \<^verbatim>\<open>Resolve\<close>.
  With a callback attached on a \<^verbatim>\<open>LocalExecutor\<close>, whose \<^verbatim>\<open>Post\<close> calls the function in
  place, \<^verbatim>\<open>Resolve\<close> returns with the state fulfilled and the callback already called.
\<close>

theorem resolve_on_local_executor_runs_callback:
  "Resolve 5 0 (VInt 7) (one_promise (Some LocalExecutor)) =
     Some (True, (put 0 ((PromiseState_new False)\<lparr>ps_status := kFulfilled,
                           ps_storage := Some (Ok (VInt 7)),
                           ps_executor := Some LocalExecutor\<rparr>) World_empty)
                   \<lparr>w_trace := [Called 1 (Ok (VInt 7))], w_fresh := 1\<rparr>)"
  by (simp add: eval_nat_numeral promise_Suc one_promise_def PromiseState_new_def status_defs
      Callback_body_def Functor_body_def put_def World_empty_def)

text \<open>
  Claim C3, amended, for a state in status \<open>init\<close>.
  \<^item> A generic state with no callback, or with its callback on a queueing executor:
    \<^verbatim>\<open>Resolve(v)\<close> and \<^verbatim>\<open>Reject(e)\<close> return true with the outcome stored, the state in the
    matching pre status, the callback still attached and nothing called; if a callback
    is attached, the trampoline has been appended to the executor's queue. The
    trampoline first moves the state to the terminal status and then invokes the
    callback. A second \<^verbatim>\<open>Resolve\<close> or \<^verbatim>\<open>Reject\<close> returns false and changes nothing.
  \<^item> With a user callback returning \<^verbatim>\<open>void\<close> on the queueing executor \<open>q\<close>, whose queue is
    empty: after the executor has run the posted trampoline, the state is in the
    terminal status, the callback has been called once with the outcome and released.
    The executor is not the only way there: \<^verbatim>\<open>Then(g, nullptr)\<close> on the pre-settled state
    runs a new trampoline in place, inside \<^verbatim>\<open>Then\<close>; the state is fulfilled and \<^verbatim>\<open>g\<close>
    called while the posted trampoline is still queued, and that one does nothing when
    it runs.
  \<^item> With the callback on no executor or on a \<^verbatim>\<open>LocalExecutor\<close>, \<^verbatim>\<open>Resolve\<close> and \<^verbatim>\<open>Reject\<close>
    return with the state in the terminal status and the callback called.
  \<^item> \<^verbatim>\<open>PromiseState<void>::Resolve\<close> and \<^verbatim>\<open>Reject\<close>, on a state with no next state, force
    the terminal status themselves.
\<close>

theorem settlement_and_the_executor:
  assumes "w_heap w a = Some s" and "ps_status s = kInit"
  shows
   "(\<not> ps_void s \<and> (ps_callback s = None \<or> ps_executor s = Some (QueueExecutor q)) \<longrightarrow>
       Resolve (Suc (Suc n)) a v w
           = Some (True, deferred a (settled s (Ok v) kPreFulfilled) q w)
       \<and> Reject (Suc (Suc n)) a e w
           = Some (True, deferred a (settled s (Err e) kPreRejected) q w)
       \<and> Promise_status (deferred a (settled s (Ok v) kPreFulfilled) q w) a = Some kPreFulfilled
       \<and> Promise_status (deferred a (settled s (Err e) kPreRejected) q w) a = Some kPreRejected
       \<and> Promise_callback (deferred a (settled s (Ok v) kPreFulfilled) q w) a = ps_callback s
       \<and> w_trace (deferred a (settled s (Ok v) kPreFulfilled) q w) = w_trace w
       \<and> w_trace (deferred a (settled s (Err e) kPreRejected) q w) = w_trace w
       \<and> w_queue (deferred a (settled s (Ok v) kPreFulfilled) q w) q
           = (if ps_callback s = None then w_queue w q else w_queue w q @ [TrampolineOf a])
       \<and> Trampoline (Suc m) a (deferred a (settled s (Ok v) kPreFulfilled) q w)
           = InvokeCallback m a
               (put a (settled s (Ok v) kFulfilled) (deferred a (settled s (Ok v) kPreFulfilled) q w))
       \<and> Trampoline (Suc m) a (deferred a (settled s (Err e) kPreRejected) q w)
           = InvokeCallback m a
               (put a (settled s (Err e) kRejected) (deferred a (settled s (Err e) kPreRejected) q w))
       \<and> Resolve (Suc n) a v' (deferred a (settled s (Ok v) kPreFulfilled) q w)
           = Some (False, deferred a (settled s (Ok v) kPreFulfilled) q w)
       \<and> Reject (Suc n) a e' (deferred a (settled s (Ok v) kPreFulfilled) q w)
           = Some (False, deferred a (settled s (Ok v) kPreFulfilled) q w)
       \<and> Resolve (Suc n) a v' (deferred a (settled s (Err e) kPreRejected) q w)
           = Some (False, deferred a (settled s (Err e) kPreRejected) q w)
       \<and> Reject (Suc n) a e' (deferred a (settled s (Err e) kPreRejected) q w)
           = Some (False, deferred a (settled s (Err e) kPreRejected) q w))
    \<and> (\<not> ps_void s \<and> ps_callback s = Some (CbVoid (UserVoid tag) a) \<and> ps_next s = None
        \<and> ps_executor s = Some (QueueExecutor q) \<and> w_queue w q = [] \<longrightarrow>
       status_in (run_ops (Suc (Suc (Suc n))) [OpResolve a v, OpRunOne q] w) a = Some kFulfilled
       \<and> trace_in (run_ops (Suc (Suc (Suc n))) [OpResolve a v, OpRunOne q] w)
           = Some (w_trace w @ [Called tag (Ok v)])
       \<and> callback_in (run_ops (Suc (Suc (Suc n))) [OpResolve a v, OpRunOne q] w) a = Some None
       \<and> queue_in (run_ops (Suc (Suc (Suc n))) [OpResolve a v, OpRunOne q] w) q = Some []
       \<and> status_in (run_ops (Suc (Suc (Suc n))) [OpReject a e, OpRunOne q] w) a = Some kRejected
       \<and> trace_in (run_ops (Suc (Suc (Suc n))) [OpReject a e, OpRunOne q] w)
           = Some (w_trace w @ [Called tag (Err e)])
       \<and> callback_in (run_ops (Suc (Suc (Suc n))) [OpReject a e, OpRunOne q] w) a = Some None
       \<and> queue_in (run_ops (Suc (Suc (Suc n))) [OpReject a e, OpRunOne q] w) q = Some []
       \<and> status_in (run_ops (Suc (Suc (Suc (Suc n)))) [OpResolve a v, OpThenVoid a (UserVoid g) None] w) a
           = Some kFulfilled
       \<and> trace_in (run_ops (Suc (Suc (Suc (Suc n)))) [OpResolve a v, OpThenVoid a (UserVoid g) None] w)
           = Some (w_trace w @ [Called g (Ok v)])
       \<and> queue_in (run_ops (Suc (Suc (Suc (Suc n)))) [OpResolve a v, OpThenVoid a (UserVoid g) None] w) q
           = Some [TrampolineOf a]
       \<and> status_in (run_ops (Suc (Suc (Suc (Suc n))))
                      [OpResolve a v, OpThenVoid a (UserVoid g) None, OpRunOne q] w) a
           = Some kFulfilled
       \<and> trace_in (run_ops (Suc (Suc (Suc (Suc n))))
                      [OpResolve a v, OpThenVoid a (UserVoid g) None, OpRunOne q] w)
           = Some (w_trace w @ [Called g (Ok v)])
       \<and> queue_in (run_ops (Suc (Suc (Suc (Suc n))))
                      [OpResolve a v, OpThenVoid a (UserVoid g) None, OpRunOne q] w) q
           = Some [])
    \<and> (\<not> ps_void s \<and> ps_callback s = Some (CbVoid (UserVoid tag) a) \<and> ps_next s = None
        \<and> (ps_executor s = None \<or> ps_executor s = Some LocalExecutor) \<longrightarrow>
       map_option fst (Resolve (Suc (Suc (Suc (Suc (Suc n))))) a v w) = Some True
       \<and> status_in (run_ops (Suc (Suc (Suc (Suc (Suc n))))) [OpResolve a v] w) a = Some kFulfilled
       \<and> trace_in (run_ops (Suc (Suc (Suc (Suc (Suc n))))) [OpResolve a v] w)
           = Some (w_trace w @ [Called tag (Ok v)])
       \<and> map_option fst (Reject (Suc (Suc (Suc (Suc (Suc n))))) a e w) = Some True
       \<and> status_in (run_ops (Suc (Suc (Suc (Suc (Suc n))))) [OpReject a e] w) a = Some kRejected
       \<and> trace_in (run_ops (Suc (Suc (Suc (Suc (Suc n))))) [OpReject a e] w)
           = Some (w_trace w @ [Called tag (Err e)]))
    \<and> (ps_void s \<and> ps_next s = None \<longrightarrow>
       Resolve_void (Suc n) a w
           = Some (True, put a (s\<lparr>ps_storage_void := Some Error_default,
                                   ps_status := kFulfilled\<rparr>) w)
       \<and> Reject_void (Suc n) a e w
           = Some (True, put a (s\<lparr>ps_storage_void := Some e,
                                   ps_status := (if Result_void_IsOk e then kFulfilled
                                                 else kRejected)\<rparr>) w))"
  by (intro conjI impI; elim conjE;
      (rule resolve_deferred resolve_deferred_again resolve_then_run
            resolve_then_attach_in_place resolve_in_place resolve_void_forces;
       (rule assms | assumption)))

text \<open>The three cases on a promise with the user callback 1: on the queueing executor
  0, on no executor, and a fresh \<^verbatim>\<open>Promise<void>\<close>.\<close>

theorem settlement_and_the_executor_witness:
  "w_heap (one_promise (Some (QueueExecutor 0))) 0
        = Some ((PromiseState_new False)\<lparr>ps_callback := Some (CbVoid (UserVoid 1) 0),
                                          ps_executor := Some (QueueExecutor 0)\<rparr>)
   \<and> Promise_status (one_promise (Some (QueueExecutor 0))) 0 = Some kInit
   \<and> map_option fst (Resolve (Suc (Suc 0)) 0 (VInt 7) (one_promise (Some (QueueExecutor 0))))
        = Some True
   \<and> status_in (map_option snd (Resolve (Suc (Suc 0)) 0 (VInt 7) (one_promise (Some (QueueExecutor 0))))) 0
        = Some kPreFulfilled
   \<and> status_in (run_ops (Suc (Suc (Suc 0))) [OpResolve 0 (VInt 7), OpRunOne 0]
                  (one_promise (Some (QueueExecutor 0)))) 0 = Some kFulfilled
   \<and> trace_in (run_ops (Suc (Suc (Suc 0))) [OpResolve 0 (VInt 7), OpRunOne 0]
                  (one_promise (Some (QueueExecutor 0)))) = Some [Called 1 (Ok (VInt 7))]
   \<and> trace_in (run_ops (Suc (Suc (Suc (Suc 0))))
                  [OpResolve 0 (VInt 7), OpThenVoid 0 (UserVoid 2) None, OpRunOne 0]
                  (one_promise (Some (QueueExecutor 0)))) = Some [Called 2 (Ok (VInt 7))]
   \<and> status_in (run_ops (Suc (Suc (Suc (Suc (Suc 0))))) [OpResolve 0 (VInt 7)]
                  (one_promise None)) 0 = Some kFulfilled
   \<and> trace_in (run_ops (Suc (Suc (Suc (Suc (Suc 0))))) [OpResolve 0 (VInt 7)]
                  (one_promise None)) = Some [Called 1 (Ok (VInt 7))]
   \<and> w_heap fresh_void_promise 0 = Some (PromiseState_new True)
   \<and> map_option fst (Resolve_void (Suc 0) 0 fresh_void_promise) = Some True
   \<and> status_in (map_option snd (Resolve_void (Suc 0) 0 fresh_void_promise)) 0 = Some kFulfilled"
proof -
  let ?Q = "(PromiseState_new False)\<lparr>ps_callback := Some (CbVoid (UserVoid 1) 0),
                                     ps_executor := Some (QueueExecutor 0)\<rparr>"
  let ?N = "(PromiseState_new False)\<lparr>ps_callback := Some (CbVoid (UserVoid 1) 0),
                                     ps_executor := None\<rparr>"
  have q: "w_heap (one_promise (Some (QueueExecutor 0))) 0 = Some ?Q" "ps_status ?Q = kInit"
    by (simp_all add: one_promise_def PromiseState_new_def)
  have n: "w_heap (one_promise None) 0 = Some ?N" "ps_status ?N = kInit"
    by (simp_all add: one_promise_def PromiseState_new_def)
  have v: "w_heap fresh_void_promise 0 = Some (PromiseState_new True)"
    "ps_status (PromiseState_new True) = kInit"
    by (simp_all add: fresh_void_promise_def make_shared_def World_empty_def PromiseState_new_def)
  have e: "w_queue (one_promise (Some (QueueExecutor 0))) 0 = []"
    "w_trace (one_promise (Some (QueueExecutor 0))) = []" "w_trace (one_promise None) = []"
    by (simp_all add: one_promise_def World_empty_def)
  show ?thesis
    using settlement_and_the_executor [OF q, where q = 0 and n = 0 and v = "VInt 7" and tag = 1 and g = 2]
      settlement_and_the_executor [OF n, where n = 0 and v = "VInt 7" and tag = 1]
      settlement_and_the_executor [OF v, where n = 0]
      q(1) v(1) e
    by (simp add: PromiseState_new_def status_in_def Promise_status_def)
qed

subsection \<open>Cancellation\<close>

text \<open>
  Claim C4 on the chain \<^verbatim>\<open>p1 = p0.Then(f, &exec); p1.Then(g, &exec)\<close>: \<^verbatim>\<open>p0.Cancel()\<close>
  cancels state 0 only. State 1 stays in status \<open>init\<close> with its callback attached,
  because \<^verbatim>\<open>Promise<T>::Cancel\<close> calls \<^verbatim>\<open>PromiseState<T>::Cancel\<close>, which hides the
  chain-walking \<^verbatim>\<open>PromiseStateBase::Cancel\<close>. The latter does cancel state 1, but it
  releases nothing: \<^verbatim>\<open>OnCancel\<close> is empty.
\<close>

theorem cancel_does_not_walk_chain:
  "Promise_status chain_world 0 = Some kInit
   \<and> Promise_status chain_world 1 = Some kInit
   \<and> status_in (Promise_Cancel 0 chain_world) 0 = Some kCancelled
   \<and> status_in (Promise_Cancel 0 chain_world) 1 = Some kInit
   \<and> Option.bind (Promise_Cancel 0 chain_world) (\<lambda>w. Promise_callback w 1)
        = Some (CbVoid (UserVoid 2) 1)
   \<and> status_in (PromiseStateBase_Cancel 2 0 chain_world) 1 = Some kCancelled
   \<and> Option.bind (PromiseStateBase_Cancel 2 0 chain_world) (\<lambda>w. Promise_callback w 1)
        = Some (CbVoid (UserVoid 2) 1)"
  by (simp add: Promise_Cancel_def Cancel_def chain_world_def PromiseState_new_def status_defs
      Promise_status_def Promise_callback_def status_in_def eval_nat_numeral)

subsection \<open>Combinators on empty input\<close>

text \<open>
  Claim C5, evaluated. On empty input \<^verbatim>\<open>MkAllPromise\<close> returns a promise resolved with
  the empty vector, and \<^verbatim>\<open>MkAnyPromise\<close>, \<^verbatim>\<open>MkAnyPromiseAttachContainer\<close> and
  \<^verbatim>\<open>MkRacePromise\<close> return a promise rejected with the error the claim names. But
  \<^verbatim>\<open>MkRacePromiseAttachContainer\<close> drops the rejected promise it builds and returns a
  second promise, which is in status \<open>init\<close> with nothing stored.
\<close>

theorem combinators_on_empty_input:
  "(\<exists>w'. MkAllPromise (Suc (Suc n)) [] ex d w = Some (w_fresh w, w')
         \<and> Promise_status w' (w_fresh w) = Some kPreFulfilled
         \<and> Promise_storage w' (w_fresh w) = Some (Ok (VVec [])))
   \<and> (\<exists>w'. MkAnyPromise (Suc (Suc n)) [] ex d w = Some (w_fresh w, w')
         \<and> Promise_status w' (w_fresh w) = Some kPreRejected
         \<and> Promise_storage w' (w_fresh w) =
             Some (Err (Err_msg kErrorEventPromiseAny ''no promise'')))
   \<and> (\<exists>w'. MkAnyPromiseAttachContainer (Suc (Suc n)) [] ex d w = Some (w_fresh w, w')
         \<and> Promise_status w' (w_fresh w) = Some kPreRejected
         \<and> Promise_storage w' (w_fresh w) =
             Some (Err (Err_msg kErrorEventPromiseAny ''no promise'')))
   \<and> (\<exists>w'. MkRacePromise (Suc (Suc n)) [] ex w = Some (w_fresh w, w')
         \<and> Promise_status w' (w_fresh w) = Some kPreRejected
         \<and> Promise_storage w' (w_fresh w) =
             Some (Err (Err_msg kErrorEventPromiseRace ''no promise'')))
   \<and> (\<exists>w'. MkRacePromiseAttachContainer (Suc (Suc n)) [] ex w = Some (Suc (w_fresh w), w')
         \<and> Promise_status w' (Suc (w_fresh w)) = Some kInit
         \<and> Promise_storage w' (Suc (w_fresh w)) = None
         \<and> Promise_status w' (w_fresh w) = None)"
  by (simp add: MkAllPromise_def MkAnyPromise_def MkAnyPromiseAttachContainer_def
      MkRacePromise_def MkRacePromiseAttachContainer_def MkResolvedPromise_def
      MkRejectedPromise_def make_shared_def make_shared_attachment_def promise_Suc
      PromiseState_new_def status_defs Promise_status_def Promise_storage_def
      PromiseState_destroy_def put_def)

subsection \<open>The coroutine awaiter\<close>

lemma await_ready_pending:
  "w_heap w p = Some s \<Longrightarrow>
     await_ready w p = Some (ps_status s = kPreFulfilled \<or> ps_status s = kPreRejected)"
  by (auto simp: await_ready_def status_defs)

lemma co_await_ready:
  "w_heap w p = Some s \<Longrightarrow> ps_status s \<in> {kPreFulfilled, kPreRejected} \<Longrightarrow>
     co_await n p h current w = map_option (Pair Continues) (await_resume n p h w)"
  by (auto simp: co_await_def await_ready_def status_defs)

lemma await_resume_stores:
  assumes "w_heap w p = Some s" "\<not> ps_void s" "ps_status s \<in> {kPreFulfilled, kPreRejected}"
    "ps_storage s = Some r" "ps_next s = None"
  shows "status_in (await_resume (Suc (Suc (Suc (Suc n)))) p h w) p
           = Some (if ps_status s = kPreFulfilled then kFulfilled else kRejected)"
    and "trace_in (await_resume (Suc (Suc (Suc (Suc n)))) p h w) = Some (w_trace w @ [Stored h r])"
  using assms
  by (auto simp: await_resume_def Then_void_def Attach_void_def AddCallback_def promise_Suc
      status_defs Callback_body_def Functor_body_def observer_defs)

lemma co_await_suspends:
  assumes "w_heap w p = Some s" "\<not> ps_void s" "ps_status s \<in> {kInit, kFulfilled, kRejected, kCancelled}"
  shows "co_await (Suc n) p h (Some loop) w = Some (Suspends, suspended p s h loop w)"
    and "co_await n p h None w = None"
  using assms
  by (auto simp: co_await_def await_ready_def await_suspend_def Then_void_def Attach_void_def
      AddCallback_def promise_Suc status_defs suspended_def)

lemma suspended_settle:
  assumes "w_heap w p = Some s" "\<not> ps_void s" "ps_status s = kInit"
  shows "status_in (run_ops (Suc (Suc n)) [OpResolve p v] (suspended p s h loop w)) p = Some kPreFulfilled"
    and "trace_in (run_ops (Suc (Suc n)) [OpResolve p v] (suspended p s h loop w)) = Some (w_trace w)"
    and "queue_in (run_ops (Suc (Suc n)) [OpResolve p v] (suspended p s h loop w)) (normal_queue loop)
           = Some (w_queue w (normal_queue loop) @ [TrampolineOf p])"
    and "status_in (run_ops (Suc (Suc n)) [OpReject p e] (suspended p s h loop w)) p = Some kPreRejected"
    and "trace_in (run_ops (Suc (Suc n)) [OpReject p e] (suspended p s h loop w)) = Some (w_trace w)"
    and "queue_in (run_ops (Suc (Suc n)) [OpReject p e] (suspended p s h loop w)) (normal_queue loop)
           = Some (w_queue w (normal_queue loop) @ [TrampolineOf p])"
  using assms
  by (auto simp: promise_Suc status_defs suspended_def MessageLoop_executor_def Post_def
      observer_defs)

lemma suspended_resumed:
  assumes "w_heap w p = Some s" "\<not> ps_void s" "ps_status s = kInit" "ps_next s = None"
    "w_queue w (normal_queue loop) = []"
  shows "status_in (run_ops (Suc (Suc (Suc n))) [OpResolve p v, OpRunOne (normal_queue loop)]
                      (suspended p s h loop w)) p = Some kFulfilled"
    and "trace_in (run_ops (Suc (Suc (Suc n))) [OpResolve p v, OpRunOne (normal_queue loop)]
                      (suspended p s h loop w)) = Some (w_trace w @ [Resumed h (Ok v)])"
    and "status_in (run_ops (Suc (Suc (Suc n))) [OpReject p e, OpRunOne (normal_queue loop)]
                      (suspended p s h loop w)) p = Some kRejected"
    and "trace_in (run_ops (Suc (Suc (Suc n))) [OpReject p e, OpRunOne (normal_queue loop)]
                      (suspended p s h loop w)) = Some (w_trace w @ [Resumed h (Err e)])"
  using assms
  by (auto simp: RunOne_def Post_def promise_Suc status_defs suspended_def
      MessageLoop_executor_def Callback_body_def Functor_body_def observer_defs)

lemma suspended_terminal:
  assumes "w_heap w p = Some s" "\<not> ps_void s" "ps_status s \<in> {kFulfilled, kRejected}"
  shows "w_queue (suspended p s h loop w) = w_queue w"
    and "w_trace (suspended p s h loop w) = w_trace w"
    and "TryInvokeCallback (Suc n) p (suspended p s h loop w) = Some (suspended p s h loop w)"
    and "Trampoline (Suc n) p (suspended p s h loop w) = Some (suspended p s h loop w)"
    and "Resolve (Suc n) p v (suspended p s h loop w) = Some (False, suspended p s h loop w)"
    and "Reject (Suc n) p e (suspended p s h loop w) = Some (False, suspended p s h loop w)"
  using assms
  by (auto simp: promise_Suc status_defs suspended_def)

lemma fresh_promise_heap: "w_heap fresh_promise 0 = Some (PromiseState_new False)"
  by (simp add: fresh_promise_def make_shared_def World_empty_def)

lemma resolved_promise_built: "MkResolvedPromise 2 (VInt 123) World_empty = Some (0, resolved_promise)"
  by (simp add: MkResolvedPromise_def make_shared_def eval_nat_numeral promise_Suc
      resolved_promise_def put_def World_empty_def PromiseState_new_def status_defs)

lemma fulfilled_promise_built:
  "Resolve 5 0 (VInt 7) (one_promise (Some LocalExecutor)) = Some (True, fulfilled_promise)"
  by (simp add: eval_nat_numeral promise_Suc one_promise_def PromiseState_new_def status_defs
      Callback_body_def Functor_body_def put_def World_empty_def fulfilled_promise_def)

text \<open>
  Claim C8, as stated, fails on a thread with no current message loop: for a promise
  in status \<open>init\<close>, \<^verbatim>\<open>await_ready\<close> is false and \<^verbatim>\<open>await_suspend\<close> fails its
  \<^verbatim>\<open>DCHECK(current)\<close>; the coroutine is not suspended with a continuation attached.
\<close>

theorem co_await_without_current_loop:
  "Promise_status fresh_promise 0 = Some kInit
   \<and> await_ready fresh_promise 0 = Some False
   \<and> co_await 5 0 7 None fresh_promise = None"
  by (simp add: fresh_promise_def make_shared_def PromiseState_new_def World_empty_def
      Promise_status_def await_ready_def co_await_def await_suspend_def status_defs)

text \<open>
  Claim C8, amended, for the awaiter of a generic promise (a \<^verbatim>\<open>Notifier\<close> is a
  \<^verbatim>\<open>Promise<Dummy>\<close>).
  \<^item> \<^verbatim>\<open>await_ready\<close> is true exactly when the awaited promise is preFulfilled or
    preRejected. The coroutine then continues with \<^verbatim>\<open>await_resume\<close>, which (on a promise
    with its result stored and no next state) runs the storing continuation in place:
    the promise is moved to the terminal status and the result handed over.
  \<^item> For a promise in status \<open>init\<close>, \<open>fulfilled\<close>, \<open>rejected\<close> or \<open>cancelled\<close> it is false. On
    a thread with a current loop the coroutine suspends and \<^verbatim>\<open>await_suspend\<close> attaches
    the resuming continuation on the loop's executor, with nothing posted or called;
    with no current loop \<^verbatim>\<open>await_suspend\<close> does not return.
  \<^item> From \<open>init\<close>: a later \<^verbatim>\<open>Resolve\<close> or \<^verbatim>\<open>Reject\<close> leaves the coroutine suspended and
    posts the trampoline on the loop's queue; when the loop runs it (the queue was
    empty, the promise has no next state), the promise reaches the terminal status
    and the continuation resumes the coroutine with the outcome.
  \<^item> From \<open>fulfilled\<close> or \<open>rejected\<close>: the continuation is attached but can never be
    invoked, since \<^verbatim>\<open>TryInvokeCallback\<close>, the trampoline, \<^verbatim>\<open>Resolve\<close> and \<^verbatim>\<open>Reject\<close> all leave
    the world as it is: the coroutine stays suspended.
\<close>

theorem co_await_on_current_loop:
  assumes "w_heap w p = Some s" and "\<not> ps_void s"
  shows "await_ready w p = Some (ps_status s = kPreFulfilled \<or> ps_status s = kPreRejected)
     \<and> (ps_status s \<in> {kPreFulfilled, kPreRejected} \<longrightarrow>
          co_await n p h current w = map_option (Pair Continues) (await_resume n p h w)
          \<and> (ps_storage s = Some r \<and> ps_next s = None \<longrightarrow>
               status_in (await_resume (Suc (Suc (Suc (Suc n)))) p h w) p
                 = Some (if ps_status s = kPreFulfilled then kFulfilled else kRejected)
               \<and> trace_in (await_resume (Suc (Suc (Suc (Suc n)))) p h w)
                 = Some (w_trace w @ [Stored h r])))
     \<and> (ps_status s \<in> {kInit, kFulfilled, kRejected, kCancelled} \<longrightarrow>
          await_ready w p = Some False
          \<and> co_await (Suc n) p h (Some loop) w = Some (Suspends, suspended p s h loop w)
          \<and> co_await n p h None w = None)
     \<and> (ps_status s = kInit \<longrightarrow>
          status_in (run_ops (Suc (Suc n)) [OpResolve p v] (suspended p s h loop w)) p
            = Some kPreFulfilled
          \<and> trace_in (run_ops (Suc (Suc n)) [OpResolve p v] (suspended p s h loop w))
            = Some (w_trace w)
          \<and> queue_in (run_ops (Suc (Suc n)) [OpResolve p v] (suspended p s h loop w))
               (normal_queue loop)
            = Some (w_queue w (normal_queue loop) @ [TrampolineOf p])
          \<and> status_in (run_ops (Suc (Suc n)) [OpReject p e] (suspended p s h loop w)) p
            = Some kPreRejected
          \<and> trace_in (run_ops (Suc (Suc n)) [OpReject p e] (suspended p s h loop w))
            = Some (w_trace w)
          \<and> queue_in (run_ops (Suc (Suc n)) [OpReject p e] (suspended p s h loop w))
               (normal_queue loop)
            = Some (w_queue w (normal_queue loop) @ [TrampolineOf p])
          \<and> (ps_next s = None \<and> w_queue w (normal_queue loop) = [] \<longrightarrow>
               status_in (run_ops (Suc (Suc (Suc n))) [OpResolve p v, OpRunOne (normal_queue loop)]
                            (suspended p s h loop w)) p = Some kFulfilled
               \<and> trace_in (run_ops (Suc (Suc (Suc n))) [OpResolve p v, OpRunOne (normal_queue loop)]
                            (suspended p s h loop w)) = Some (w_trace w @ [Resumed h (Ok v)])
               \<and> status_in (run_ops (Suc (Suc (Suc n))) [OpReject p e, OpRunOne (normal_queue loop)]
                            (suspended p s h loop w)) p = Some kRejected
               \<and> trace_in (run_ops (Suc (Suc (Suc n))) [OpReject p e, OpRunOne (normal_queue loop)]
                            (suspended p s h loop w)) = Some (w_trace w @ [Resumed h (Err e)])))
     \<and> (ps_status s \<in> {kFulfilled, kRejected} \<longrightarrow>
          w_queue (suspended p s h loop w) = w_queue w
          \<and> w_trace (suspended p s h loop w) = w_trace w
          \<and> TryInvokeCallback (Suc n) p (suspended p s h loop w) = Some (suspended p s h loop w)
          \<and> Trampoline (Suc n) p (suspended p s h loop w) = Some (suspended p s h loop w)
          \<and> Resolve (Suc n) p v (suspended p s h loop w) = Some (False, suspended p s h loop w)
          \<and> Reject (Suc n) p e (suspended p s h loop w) = Some (False, suspended p s h loop w))"
proof (intro conjI impI)
  show "await_ready w p = Some (ps_status s = kPreFulfilled \<or> ps_status s = kPreRejected)"
    using assms(1) by (rule await_ready_pending)
next
  assume a: "ps_status s \<in> {kPreFulfilled, kPreRejected}"
  show "co_await n p h current w = map_option (Pair Continues) (await_resume n p h w)"
    using assms(1) a by (rule co_await_ready)
  assume b: "ps_storage s = Some r \<and> ps_next s = None"
  show "status_in (await_resume (Suc (Suc (Suc (Suc n)))) p h w) p
          = Some (if ps_status s = kPreFulfilled then kFulfilled else kRejected)"
    using await_resume_stores(1) [OF assms a] b by blast
  show "trace_in (await_resume (Suc (Suc (Suc (Suc n)))) p h w) = Some (w_trace w @ [Stored h r])"
    using await_resume_stores(2) [OF assms a] b by blast
next
  assume a: "ps_status s \<in> {kInit, kFulfilled, kRejected, kCancelled}"
  show "await_ready w p = Some False"
    using await_ready_pending [OF assms(1)] a by auto
  show "co_await (Suc n) p h (Some loop) w = Some (Suspends, suspended p s h loop w)"
    using assms a by (rule co_await_suspends(1))
  show "co_await n p h None w = None"
    using assms a by (rule co_await_suspends(2))
next
  assume a: "ps_status s = kInit"
  note st = suspended_settle [OF assms a]
  show "status_in (run_ops (Suc (Suc n)) [OpResolve p v] (suspended p s h loop w)) p
            = Some kPreFulfilled" by (rule st(1))
  show "trace_in (run_ops (Suc (Suc n)) [OpResolve p v] (suspended p s h loop w))
            = Some (w_trace w)" by (rule st(2))
  show "queue_in (run_ops (Suc (Suc n)) [OpResolve p v] (suspended p s h loop w))
               (normal_queue loop)
            = Some (w_queue w (normal_queue loop) @ [TrampolineOf p])" by (rule st(3))
  show "status_in (run_ops (Suc (Suc n)) [OpReject p e] (suspended p s h loop w)) p
            = Some kPreRejected" by (rule st(4))
  show "trace_in (run_ops (Suc (Suc n)) [OpReject p e] (suspended p s h loop w))
            = Some (w_trace w)" by (rule st(5))
  show "queue_in (run_ops (Suc (Suc n)) [OpReject p e] (suspended p s h loop w))
               (normal_queue loop)
            = Some (w_queue w (normal_queue loop) @ [TrampolineOf p])" by (rule st(6))
  assume b: "ps_next s = None \<and> w_queue w (normal_queue loop) = []"
  then have b1: "ps_next s = None" and b2: "w_queue w (normal_queue loop) = []" by simp_all
  note rs = suspended_resumed [OF assms a b1 b2]
  show "status_in (run_ops (Suc (Suc (Suc n))) [OpResolve p v, OpRunOne (normal_queue loop)]
                            (suspended p s h loop w)) p = Some kFulfilled" by (rule rs(1))
  show "trace_in (run_ops (Suc (Suc (Suc n))) [OpResolve p v, OpRunOne (normal_queue loop)]
                            (suspended p s h loop w)) = Some (w_trace w @ [Resumed h (Ok v)])"
    by (rule rs(2))
  show "status_in (run_ops (Suc (Suc (Suc n))) [OpReject p e, OpRunOne (normal_queue loop)]
                            (suspended p s h loop w)) p = Some kRejected" by (rule rs(3))
  show "trace_in (run_ops (Suc (Suc (Suc n))) [OpReject p e, OpRunOne (normal_queue loop)]
                            (suspended p s h loop w)) = Some (w_trace w @ [Resumed h (Err e)])"
    by (rule rs(4))
next
  assume a: "ps_status s \<in> {kFulfilled, kRejected}"
  note t = suspended_terminal [OF assms a]
  show "w_queue (suspended p s h loop w) = w_queue w" by (rule t(1))
  show "w_trace (suspended p s h loop w) = w_trace w" by (rule t(2))
  show "TryInvokeCallback (Suc n) p (suspended p s h loop w) = Some (suspended p s h loop w)"
    by (rule t(3))
  show "Trampoline (Suc n) p (suspended p s h loop w) = Some (suspended p s h loop w)"
    by (rule t(4))
  show "Resolve (Suc n) p v (suspended p s h loop w) = Some (False, suspended p s h loop w)"
    by (rule t(5))
  show "Reject (Suc n) p e (suspended p s h loop w) = Some (False, suspended p s h loop w)"
    by (rule t(6))
qed

text \<open>The cases on three promises: a fresh one, \<^verbatim>\<open>MkResolvedPromise(123)\<close>, and one that
  is already fulfilled.\<close>

theorem co_await_on_current_loop_witness:
  "w_heap fresh_promise 0 = Some (PromiseState_new False)
   \<and> co_await (Suc 0) 0 7 (Some (MessageLoop 0)) fresh_promise
       = Some (Suspends, suspended 0 (PromiseState_new False) 7 (MessageLoop 0) fresh_promise)
   \<and> trace_in (run_ops (Suc (Suc 0)) [OpResolve 0 (VInt 1)]
                 (suspended 0 (PromiseState_new False) 7 (MessageLoop 0) fresh_promise)) = Some []
   \<and> trace_in (run_ops (Suc (Suc (Suc 0))) [OpResolve 0 (VInt 1), OpRunOne 0]
                 (suspended 0 (PromiseState_new False) 7 (MessageLoop 0) fresh_promise))
       = Some [Resumed 7 (Ok (VInt 1))]
   \<and> await_ready resolved_promise 0 = Some True
   \<and> status_in (await_resume (Suc (Suc (Suc (Suc 0)))) 0 7 resolved_promise) 0 = Some kFulfilled
   \<and> trace_in (await_resume (Suc (Suc (Suc (Suc 0)))) 0 7 resolved_promise)
       = Some [Stored 7 (Ok (VInt 123))]
   \<and> await_ready fulfilled_promise 0 = Some False
   \<and> Trampoline (Suc 0) 0
        (suspended 0 ((PromiseState_new False)\<lparr>ps_status := kFulfilled,
                        ps_storage := Some (Ok (VInt 7)),
                        ps_executor := Some LocalExecutor\<rparr>) 7 (MessageLoop 0) fulfilled_promise)
       = Some (suspended 0 ((PromiseState_new False)\<lparr>ps_status := kFulfilled,
                        ps_storage := Some (Ok (VInt 7)),
                        ps_executor := Some LocalExecutor\<rparr>) 7 (MessageLoop 0) fulfilled_promise)"
proof -
  let ?F = "(PromiseState_new False)\<lparr>ps_status := kFulfilled,
                        ps_storage := Some (Ok (VInt 7)),
                        ps_executor := Some LocalExecutor\<rparr>"
  let ?R = "(PromiseState_new False)\<lparr>ps_storage := Some (Ok (VInt 123)),
                                      ps_status := kPreFulfilled\<rparr>"
  have a: "w_heap fresh_promise 0 = Some (PromiseState_new False)" "\<not> ps_void (PromiseState_new False)"
    by (simp_all add: fresh_promise_def make_shared_def PromiseState_new_def World_empty_def)
  have b: "w_heap resolved_promise 0 = Some ?R" "\<not> ps_void ?R"
    by (simp_all add: resolved_promise_def PromiseState_new_def)
  have c: "w_heap fulfilled_promise 0 = Some ?F" "\<not> ps_void ?F"
    by (simp_all add: fulfilled_promise_def PromiseState_new_def)
  show ?thesis
    using co_await_on_current_loop [OF a, of 0 7 None undefined "MessageLoop 0" "VInt 1" Error_default]
      co_await_on_current_loop [OF b, of 0 7 None "Ok (VInt 123)" "MessageLoop 0" "VInt 1" Error_default]
      co_await_on_current_loop [OF c, of 0 7 None undefined "MessageLoop 0" "VInt 1" Error_default]
      a(1)
    by (simp add: PromiseState_new_def fresh_promise_def make_shared_def World_empty_def
        resolved_promise_def fulfilled_promise_def)
qed

subsection \<open>Expired resolvers\<close>

text \<open>
  Claim C9, as stated, fails for \<^verbatim>\<open>Set\<close>: on an empty result \<^verbatim>\<open>Set\<close> calls
  \<^verbatim>\<open>PassError\<close>, whose assertion fails before the resolver looks at its weak pointer,
  so the call does not return false.
\<close>

theorem expired_resolver_Set_on_empty_result:
  "Resolver_IsExpired expired_world (GetResolver 0)
   \<and> Resolver_Set 3 (GetResolver 0) Null expired_world = None"
  by (simp add: Resolver_IsExpired_def lock_def GetResolver_def expired_world_def
      PromiseState_destroy_def make_shared_def put_def World_empty_def PromiseState_new_def
      Resolver_Set_def)

text \<open>
  Claim C9, amended. Through a resolver whose promise state is gone, \<^verbatim>\<open>Resolve\<close>,
  \<^verbatim>\<open>Reject\<close>, and \<^verbatim>\<open>Set\<close> on a result that holds a value or an error, return false
  and leave the world as it is, \<^verbatim>\<open>Cancel\<close> does nothing, every status query returns
  the empty optional, and \<^verbatim>\<open>IsExpired\<close> is true; the same holds for the resolver of
  \<^verbatim>\<open>Promise<void>\<close>.
\<close>

theorem expired_resolver_noop:
  assumes "Resolver_IsExpired w r"
  shows "Resolver_Resolve n r v w = Some (False, w)
       \<and> Resolver_Reject n r e w = Some (False, w)
       \<and> (res \<noteq> Null \<longrightarrow> Resolver_Set n r res w = Some (False, w))
       \<and> Resolver_Cancel r w = Some w
       \<and> Resolver_IsDone w r = None
       \<and> Resolver_IsEmpty w r = None
       \<and> Resolver_IsSettled w r = None
       \<and> Resolver_IsSatisfied w r = None
       \<and> Resolver_IsUnsatisfied w r = None
       \<and> Resolver_void_Resolve n r w = Some (False, w)
       \<and> Resolver_void_Reject n r e w = Some (False, w)
       \<and> Resolver_void_Set n r e w = Some (False, w)"
proof -
  from assms have l: "lock w r = None" by (simp add: Resolver_IsExpired_def)
  have set: "res \<noteq> Null \<Longrightarrow> Resolver_Set n r res w = Some (False, w)"
    by (cases res) (simp_all add: Resolver_Set_def Resolver_Resolve_def Resolver_Reject_def l)
  show ?thesis
    using set
    by (simp add: l Resolver_Resolve_def Resolver_Reject_def Resolver_Cancel_def
        Resolver_IsDone_def Resolver_IsEmpty_def Resolver_IsSettled_def
        Resolver_IsSatisfied_def Resolver_IsUnsatisfied_def Resolver_status_def
        Resolver_void_Resolve_def Resolver_void_Reject_def Resolver_void_Set_def)
qed

theorem expired_resolver_noop_witness:
  "Resolver_IsExpired expired_world (GetResolver 0)
   \<and> Resolver_Resolve 3 (GetResolver 0) (VInt 7) expired_world = Some (False, expired_world)
   \<and> Resolver_Set 3 (GetResolver 0) (Ok (VInt 7)) expired_world = Some (False, expired_world)
   \<and> Resolver_IsDone expired_world (GetResolver 0) = None"
proof -
  have e: "Resolver_IsExpired expired_world (GetResolver 0)"
    by (simp add: Resolver_IsExpired_def lock_def GetResolver_def expired_world_def
        PromiseState_destroy_def make_shared_def put_def World_empty_def PromiseState_new_def)
  show ?thesis
    using e expired_resolver_noop [OF e, of 3 "VInt 7" Error_default "Ok (VInt 7)"] by simp
qed

subsection \<open>Error construction\<close>

text \<open>
  Claim C10. For every message \<open>m\<close>, \<^verbatim>\<open>MkBoostError(0, m)\<close> is the default empty error
  (null category, code 0, no message, converting to false): the message is dropped.
  For every code \<open>c\<close> other than 0, \<^verbatim>\<open>MkBoostError(c, m)\<close> is an error of the boost
  category whose code is \<open>c\<close> and whose message is \<open>m\<close>.
\<close>

theorem MkBoostError_zero_and_nonzero:
  "MkBoostError 0 m = Error_default
   \<and> err_category (MkBoostError 0 m) = None
   \<and> err_code (MkBoostError 0 m) = 0
   \<and> err_message (MkBoostError 0 m) = None
   \<and> \<not> Error_bool (MkBoostError 0 m)
   \<and> (c \<noteq> 0 \<longrightarrow>
        IsBoostError (MkBoostError c m)
        \<and> err_category (MkBoostError c m) = Some GetBoostErrorCategory
        \<and> err_code (MkBoostError c m) = c
        \<and> err_message (MkBoostError c m) = Some m
        \<and> Error_bool (MkBoostError c m))"
  by (simp add: MkBoostError_def Error_default_def Error_msg_def kNoErrorCode_def
      Error_bool_def Has_def IsBoostError_def)

theorem MkBoostError_zero_and_nonzero_witness:
  "(1::int) \<noteq> 0
   \<and> MkBoostError 0 ''err'' = Error_default
   \<and> IsBoostError (MkBoostError 1 ''err'')
   \<and> err_code (MkBoostError 1 ''err'') = 1
   \<and> err_message (MkBoostError 1 ''err'') = Some ''err''"
  using MkBoostError_zero_and_nonzero [of "''err''" 1] by simp


subsection \<open>Timer wheel: arithmetic of the level clocks\<close>

text \<open>Level \<open>k\<close> of the wheel counts in units of \<open>256 ^ k\<close> ticks. The lemmas relate the
  level clocks \<open>T div 256 ^ k\<close> of two ticks and follow the loop of \<^verbatim>\<open>Schedule\<close> level by
  level.\<close>

lemmas wheel_consts = kWidthBits_def kNumLevels_def kMaxLevel_def kNumSlots_def kMask_def

lemma kNumLevels_8 [simp]: "kNumLevels = 8" by (simp add: wheel_consts)
lemma kNumSlots_256 [simp]: "kNumSlots = 256" by (simp add: wheel_consts)
lemma kMaxLevel_7 [simp]: "kMaxLevel = 7" by (simp add: wheel_consts)

lemma TICK_pow: "TICK = 256 ^ 8" by (simp add: TICK_def)

lemma div_pow_Suc: "x div 256 ^ k div 256 = x div (256::nat) ^ Suc k"
  by (metis div_mult2_eq mult.commute power_Suc)

lemma pred_div:
  assumes "0 < T" "0 < (m::nat)"
  shows "(T - 1) div m = (if T mod m = 0 then T div m - 1 else T div m)"
proof -
  obtain n where T: "T = Suc n" using assms(1) by (cases T) auto
  show ?thesis using assms(2) by (auto simp: T div_Suc)
qed

lemma mod_pow_mono:
  "T mod 256 ^ k \<noteq> 0 \<Longrightarrow> k \<le> k' \<Longrightarrow> T mod (256::nat) ^ k' \<noteq> 0"
  by (meson dvd_trans le_imp_power_dvd mod_eq_0_iff_dvd)

lemma slot_zero_iff:
  assumes "T mod 256 ^ l = 0"
  shows "(T div 256 ^ l) mod 256 = 0 \<longleftrightarrow> T mod (256::nat) ^ Suc l = 0"
proof -
  from assms obtain q where q: "T = 256 ^ l * q" by (auto simp: mod_eq_0_iff_dvd)
  show ?thesis by (simp add: q mod_eq_0_iff_dvd)
qed

lemma due_ge:
  assumes "s div 256 ^ l = T div 256 ^ l" "T mod (256::nat) ^ l = 0"
  shows "T \<le> s"
proof -
  have "T = (T div 256 ^ l) * 256 ^ l" using assms(2) by auto
  also have "\<dots> = (s div 256 ^ l) * 256 ^ l" using assms(1) by simp
  also have "\<dots> \<le> s" by (rule div_times_less_eq_dividend)
  finally show ?thesis .
qed

lemma strict_gt: "T div m < s div (m::nat) \<Longrightarrow> T < s"
  by (meson div_le_mono not_le)

lemma top_level_small: "T < TICK \<Longrightarrow> T div 256 ^ 7 < 256"
  by (simp add: TICK_def less_mult_imp_div_less)

lemma sub_mult_div:
  assumes "0 < (m::nat)" "m * q \<le> a"
  shows "(a - m * q) div m = a div m - q"
proof -
  obtain c where c: "a = m * q + c" using assms(2) le_iff_add by blast
  show ?thesis using assms(1) by (simp add: c)
qed

lemma same_residue_close:
  assumes "a mod m = b mod m" "b \<le> a" "a < b + (m::nat)"
  shows "a = b"
proof -
  have "m dvd a - b" using assms(1,2) by (simp add: mod_eq_dvd_iff_nat)
  moreover have "a - b < m" using assms(2,3) by simp
  ultimately have "a - b = 0" using nat_dvd_not_less by (cases "a - b = 0") auto
  then show ?thesis using assms(2) by simp
qed

lemma same_slot_due:
  assumes "j = (s div 256 ^ l) mod 256" "j = (T div 256 ^ l) mod 256"
    "T div 256 ^ l \<le> s div 256 ^ l" "s div 256 ^ l \<le> T div 256 ^ l + (255::nat)"
  shows "s div 256 ^ l = T div 256 ^ l"
  by (rule same_residue_close [where m = 256]) (use assms in auto)

lemma level_walk_clock:
  assumes "\<forall>k<kNumLevels. now k = T div 256 ^ k" "S < TICK" "T \<le> S"
    and "k < kNumLevels" "\<delta> = S div 256 ^ k - T div 256 ^ k" "1 \<le> \<delta>"
  shows "\<exists>l d. level_walk now k \<delta> = Some (l, d) \<and> k \<le> l \<and> l < kNumLevels
           \<and> d = S div 256 ^ l - T div 256 ^ l \<and> 1 \<le> d \<and> d \<le> 255
           \<and> (l = k \<longleftrightarrow> \<delta> < 256)"
  using assms(4-6)
proof (induction "kNumLevels - k" arbitrary: k \<delta>)
  case 0
  then show ?case by simp
next
  case (Suc n)
  show ?case
  proof (cases "\<delta> < 256")
    case True
    then show ?thesis using Suc.prems by (subst level_walk.simps) simp
  next
    case False
    then have big: "256 \<le> \<delta>" by simp
    have le: "T div 256 ^ k \<le> S div 256 ^ k" using assms(3) by (rule div_le_mono)
    have k7: "k \<noteq> 7"
    proof
      assume "k = 7"
      then have "S div 256 ^ k < 256" using top_level_small [OF assms(2)] by simp
      then show False using big Suc.prems(2) by simp
    qed
    then have k': "Suc k < kNumLevels" using Suc.prems(1) by simp
    have nowk: "now k = T div 256 ^ k" using assms(1) Suc.prems(1) by blast
    define a where "a = S div 256 ^ k"
    define b where "b = T div 256 ^ k"
    have ab: "\<delta> = a - b" "b \<le> a" using Suc.prems(2) le by (simp_all add: a_def b_def)
    have aS: "a \<le> S" by (simp add: a_def)
    define q where "q = b div 256"
    define r where "r = b mod 256"
    have bqr: "b = 256 * q + r" by (simp add: q_def r_def)
    have sum: "\<delta> + r = a - 256 * q"
      using ab bqr by linarith
    have lt: "\<delta> + r < TICK"
      using sum aS assms(2) by simp
    have qa: "256 * q \<le> a" using ab bqr by linarith
    have dv: "(\<delta> + r) div 256 = a div 256 - q"
      unfolding sum using sub_mult_div [of 256 q a] qa by simp
    have next_delta: "((\<delta> + now k mod kNumSlots) mod TICK) div kNumSlots
                       = S div 256 ^ Suc k - T div 256 ^ Suc k"
    proof -
      have "((\<delta> + now k mod kNumSlots) mod TICK) div kNumSlots = (\<delta> + r) div 256"
        using lt by (simp add: nowk b_def r_def)
      also have "\<dots> = a div 256 - b div 256" by (simp add: dv q_def)
      finally show ?thesis by (simp add: a_def b_def div_pow_Suc)
    qed
    have ge1: "1 \<le> S div 256 ^ Suc k - T div 256 ^ Suc k"
    proof -
      have "256 \<le> \<delta> + r" using big by simp
      then have "256 div 256 \<le> (\<delta> + r) div 256" by (rule div_le_mono)
      then have "1 \<le> a div 256 - b div 256" by (simp add: dv q_def)
      then show ?thesis by (simp add: a_def b_def div_pow_Suc)
    qed
    have n: "n = kNumLevels - Suc k" using Suc.hyps(2) by simp
    from Suc.hyps(1) [OF n k' refl ge1]
    obtain l d where ih: "level_walk now (Suc k) (S div 256 ^ Suc k - T div 256 ^ Suc k) = Some (l, d)"
      "Suc k \<le> l" "l < kNumLevels" "d = S div 256 ^ l - T div 256 ^ l" "1 \<le> d" "d \<le> 255"
      by blast
    have "level_walk now k \<delta> = Some (l, d)"
      using big Suc.prems(1) ih(1) next_delta by (subst level_walk.simps) simp
    then show ?thesis using ih False by auto
  qed
qed

subsection \<open>Timer wheel: linking and unlinking events\<close>

lemma Schedule_fresh:
  assumes "clock T w" "ev_slot w e = None" "1 \<le> D" "T + D < TICK"
  shows "\<exists>l j. l < kNumLevels \<and> j = ((T + D) div 256 ^ l) mod 256
           \<and> T div 256 ^ l < (T + D) div 256 ^ l
           \<and> (T + D) div 256 ^ l \<le> T div 256 ^ l + 255
           \<and> (l = 0 \<longleftrightarrow> D < 256)
           \<and> level_walk (tw_now w) 0 D = Some (l, (T + D) div 256 ^ l - T div 256 ^ l)
           \<and> Schedule e D w =
               Some (w\<lparr>tw_slots := (tw_slots w)((l, j) := e # tw_slots w (l, j)),
                        ev_slot := (ev_slot w)(e := Some (l, j)),
                        ev_scheduled_at := (ev_scheduled_at w)(e := T + D)\<rparr>)"
proof -
  have now: "\<forall>k<kNumLevels. tw_now w k = T div 256 ^ k" and T: "T < TICK"
    using assms(1) by (auto simp: clock_def)
  from level_walk_clock [OF now assms(4), of 0 D] assms(3)
  obtain l d where w: "level_walk (tw_now w) 0 D = Some (l, d)" "l < kNumLevels"
    "d = (T + D) div 256 ^ l - T div 256 ^ l" "1 \<le> d" "d \<le> 255" "l = 0 \<longleftrightarrow> D < 256"
    by auto
  have nl: "tw_now w l = T div 256 ^ l" using now w(2) by blast
  have le: "T div 256 ^ l \<le> (T + D) div 256 ^ l" by (rule div_le_mono) simp
  have sum: "tw_now w l + d = (T + D) div 256 ^ l" using w(3) le nl by simp
  have lt: "(T + D) div 256 ^ l < TICK"
    using assms(4) by (meson div_le_dividend le_less_trans)
  have tn0: "tw_now w 0 = T" using now [rule_format, of 0] by simp
  have "Schedule e D w =
               Some (w\<lparr>tw_slots := (tw_slots w)((l, ((T + D) div 256 ^ l) mod 256)
                            := e # tw_slots w (l, ((T + D) div 256 ^ l) mod 256)),
                        ev_slot := (ev_slot w)(e := Some (l, ((T + D) div 256 ^ l) mod 256)),
                        ev_scheduled_at := (ev_scheduled_at w)(e := T + D)\<rparr>)"
    using assms(2,3,4) w(1,2) lt
    by (simp add: Schedule_def sum tn0 Relink_def SetScheduleAt_def)
  then show ?thesis using w le by (intro exI [of _ l] exI [of _ "((T + D) div 256 ^ l) mod 256"]) auto
qed

lemma wf_linksI:
  assumes "\<And>e l j. ev_slot w e = Some (l, j) \<Longrightarrow>
             l < kNumLevels \<and> j < kNumSlots \<and> e \<in> set (tw_slots w (l, j))"
    and "\<And>s e. e \<in> set (tw_slots w s) \<Longrightarrow> ev_slot w e = Some s"
    and "\<And>s. distinct (tw_slots w s)"
  shows "wf_links w"
  unfolding wf_links_def using assms by blast

lemma wf_links_slot:
  "wf_links w \<Longrightarrow> ev_slot w e = Some (l, j) \<Longrightarrow>
     l < kNumLevels \<and> j < kNumSlots \<and> e \<in> set (tw_slots w (l, j))"
  unfolding wf_links_def by blast

lemma wf_links_mem: "wf_links w \<Longrightarrow> e \<in> set (tw_slots w s) \<Longrightarrow> ev_slot w e = Some s"
  unfolding wf_links_def by blast

lemma wf_links_distinct: "wf_links w \<Longrightarrow> distinct (tw_slots w s)"
  unfolding wf_links_def by blast

lemma placedI:
  assumes "\<And>e l j. ev_slot w e = Some (l, j) \<Longrightarrow>
        ev_scheduled_at w e < TICK
        \<and> j = (ev_scheduled_at w e div 256 ^ l) mod 256
        \<and> T div 256 ^ l \<le> ev_scheduled_at w e div 256 ^ l
        \<and> ev_scheduled_at w e div 256 ^ l \<le> T div 256 ^ l + 255"
  shows "placed T w"
  unfolding placed_def using assms by blast

lemma placedD:
  "placed T w \<Longrightarrow> ev_slot w e = Some (l, j) \<Longrightarrow>
        ev_scheduled_at w e < TICK
        \<and> j = (ev_scheduled_at w e div 256 ^ l) mod 256
        \<and> T div 256 ^ l \<le> ev_scheduled_at w e div 256 ^ l
        \<and> ev_scheduled_at w e div 256 ^ l \<le> T div 256 ^ l + 255"
  unfolding placed_def by blast

lemma strict_fromI:
  assumes "\<And>e l j. ev_slot w e = Some (l, j) \<Longrightarrow> m \<le> l \<or> T mod 256 ^ l \<noteq> 0 \<Longrightarrow>
        T div 256 ^ l < ev_scheduled_at w e div 256 ^ l"
  shows "strict_from m T w"
  unfolding strict_from_def using assms by blast

lemma strict_fromD:
  "strict_from m T w \<Longrightarrow> ev_slot w e = Some (l, j) \<Longrightarrow> m \<le> l \<or> T mod 256 ^ l \<noteq> 0 \<Longrightarrow>
        T div 256 ^ l < ev_scheduled_at w e div 256 ^ l"
  unfolding strict_from_def by blast

text \<open>Linking a fresh event keeps the link structure and the placement.\<close>

lemma link_fresh:
  assumes wf: "wf_links w" and fresh: "ev_slot w e = None" and l: "l < kNumLevels"
    and j: "j = (s div 256 ^ l) mod 256"
    and w': "w' = w\<lparr>tw_slots := (tw_slots w)((l, j) := e # tw_slots w (l, j)),
                    ev_slot := (ev_slot w)(e := Some (l, j)),
                    ev_scheduled_at := (ev_scheduled_at w)(e := s)\<rparr>"
  shows "wf_links w'"
    and "linked w' = insert e (linked w)"
    and "placed T w \<Longrightarrow> s < TICK \<Longrightarrow> T div 256 ^ l \<le> s div 256 ^ l
           \<Longrightarrow> s div 256 ^ l \<le> T div 256 ^ l + 255 \<Longrightarrow> placed T w'"
    and "strict_from m T w \<Longrightarrow> T div 256 ^ l < s div 256 ^ l \<Longrightarrow> strict_from m T w'"
proof -
  have slots': "\<And>sl. tw_slots w' sl = (if sl = (l, j) then e # tw_slots w (l, j) else tw_slots w sl)"
    and evs': "\<And>x. ev_slot w' x = (if x = e then Some (l, j) else ev_slot w x)"
    and sch': "\<And>x. ev_scheduled_at w' x = (if x = e then s else ev_scheduled_at w x)"
    by (simp_all add: w')
  have notin: "\<And>sl. e \<notin> set (tw_slots w sl)"
    using wf_links_mem [OF wf] fresh by fastforce
  show "wf_links w'"
  proof (rule wf_linksI)
    fix x l' j' assume a: "ev_slot w' x = Some (l', j')"
    show "l' < kNumLevels \<and> j' < kNumSlots \<and> x \<in> set (tw_slots w' (l', j'))"
    proof (cases "x = e")
      case True
      with a have "l' = l" "j' = j" by (simp_all add: evs')
      then show ?thesis using l j True by (simp add: slots')
    next
      case False
      with a have "ev_slot w x = Some (l', j')" by (simp add: evs')
      from wf_links_slot [OF wf this] show ?thesis by (auto simp: slots')
    qed
  next
    fix sl x assume a: "x \<in> set (tw_slots w' sl)"
    show "ev_slot w' x = Some sl"
    proof (cases "x = e")
      case True
      with a notin have "sl = (l, j)" by (simp add: slots' split: if_splits)
      then show ?thesis using True by (simp add: evs')
    next
      case False
      with a have "x \<in> set (tw_slots w sl)" by (simp add: slots' split: if_splits)
      from wf_links_mem [OF wf this] False show ?thesis by (simp add: evs')
    qed
  next
    fix sl show "distinct (tw_slots w' sl)"
      using wf_links_distinct [OF wf] notin by (simp add: slots')
  qed
  show "linked w' = insert e (linked w)"
    by (auto simp: linked_def evs')
  show "placed T w'" if p: "placed T w" and b: "s < TICK" "T div 256 ^ l \<le> s div 256 ^ l"
    "s div 256 ^ l \<le> T div 256 ^ l + 255"
  proof (rule placedI)
    fix x l' j' assume a: "ev_slot w' x = Some (l', j')"
    show "ev_scheduled_at w' x < TICK
        \<and> j' = (ev_scheduled_at w' x div 256 ^ l') mod 256
        \<and> T div 256 ^ l' \<le> ev_scheduled_at w' x div 256 ^ l'
        \<and> ev_scheduled_at w' x div 256 ^ l' \<le> T div 256 ^ l' + 255"
    proof (cases "x = e")
      case True
      with a have "l' = l" "j' = j" by (simp_all add: evs')
      then show ?thesis using True b j by (simp add: sch')
    next
      case False
      with a have "ev_slot w x = Some (l', j')" by (simp add: evs')
      from placedD [OF p this] False show ?thesis by (simp add: sch')
    qed
  qed
  show "strict_from m T w'" if p: "strict_from m T w" and b: "T div 256 ^ l < s div 256 ^ l"
  proof (rule strict_fromI)
    fix x l' j' assume a: "ev_slot w' x = Some (l', j')" and c: "m \<le> l' \<or> T mod 256 ^ l' \<noteq> 0"
    show "T div 256 ^ l' < ev_scheduled_at w' x div 256 ^ l'"
    proof (cases "x = e")
      case True
      with a have "l' = l" "j' = j" by (simp_all add: evs')
      then show ?thesis using True b by (simp add: sch')
    next
      case False
      with a have "ev_slot w x = Some (l', j')" by (simp add: evs')
      from strict_fromD [OF p this c] False show ?thesis by (simp add: sch')
    qed
  qed
qed

lemma pop_head:
  assumes wf: "wf_links w" and hd: "tw_slots w (l, c) = e # es"
    and w1: "w1 = w\<lparr>tw_slots := (tw_slots w)((l, c) := es), ev_slot := (ev_slot w)(e := None)\<rparr>"
  shows "PopEvent (l, c) w = Some (e, w1)"
    and "ev_slot w e = Some (l, c)"
    and "wf_links w1"
    and "linked w1 = linked w - {e}"
    and "placed T w \<Longrightarrow> placed T w1"
    and "strict_from m T w \<Longrightarrow> strict_from m T w1"
    and "ev_slot w1 e = None"
proof -
  have slots1: "\<And>sl. tw_slots w1 sl = (if sl = (l, c) then es else tw_slots w sl)"
    and evs1: "\<And>x. ev_slot w1 x = (if x = e then None else ev_slot w x)"
    and sch1: "ev_scheduled_at w1 = ev_scheduled_at w"
    by (simp_all add: w1)
  show pe: "PopEvent (l, c) w = Some (e, w1)"
    using hd by (simp add: PopEvent_def w1)
  have "e \<in> set (tw_slots w (l, c))" using hd by simp
  from wf_links_mem [OF wf this] show es: "ev_slot w e = Some (l, c)" .
  have d: "distinct (e # es)" using wf_links_distinct [OF wf, of "(l, c)"] hd by simp
  show "wf_links w1"
  proof (rule wf_linksI)
    fix x l' j' assume a: "ev_slot w1 x = Some (l', j')"
    then have xe: "x \<noteq> e" and b: "ev_slot w x = Some (l', j')"
      by (simp_all add: evs1 split: if_splits)
    from wf_links_slot [OF wf b] xe hd
    show "l' < kNumLevels \<and> j' < kNumSlots \<and> x \<in> set (tw_slots w1 (l', j'))"
      by (auto simp: slots1)
  next
    fix sl x assume a: "x \<in> set (tw_slots w1 sl)"
    show "ev_slot w1 x = Some sl"
    proof (cases "sl = (l, c)")
      case True
      with a have "x \<in> set es" by (simp add: slots1)
      then have "x \<noteq> e" "x \<in> set (tw_slots w (l, c))" using d hd by auto
      then show ?thesis using wf_links_mem [OF wf] True by (simp add: evs1)
    next
      case False
      with a have x: "x \<in> set (tw_slots w sl)" by (simp add: slots1)
      from wf_links_mem [OF wf x] have "ev_slot w x = Some sl" .
      moreover from this have "x \<noteq> e" using es False by auto
      ultimately show ?thesis by (simp add: evs1)
    qed
  next
    fix sl show "distinct (tw_slots w1 sl)"
      using wf_links_distinct [OF wf] d by (simp add: slots1)
  qed
  show "linked w1 = linked w - {e}"
    by (auto simp: linked_def evs1)
  show "placed T w1" if p: "placed T w"
  proof (rule placedI)
    fix x l' j' assume a: "ev_slot w1 x = Some (l', j')"
    then have "ev_slot w x = Some (l', j')" by (simp add: evs1 split: if_splits)
    from placedD [OF p this]
    show "ev_scheduled_at w1 x < TICK
        \<and> j' = (ev_scheduled_at w1 x div 256 ^ l') mod 256
        \<and> T div 256 ^ l' \<le> ev_scheduled_at w1 x div 256 ^ l'
        \<and> ev_scheduled_at w1 x div 256 ^ l' \<le> T div 256 ^ l' + 255"
      by (simp add: sch1)
  qed
  show "strict_from m T w1" if p: "strict_from m T w"
  proof (rule strict_fromI)
    fix x l' j' assume a: "ev_slot w1 x = Some (l', j')" and c: "m \<le> l' \<or> T mod 256 ^ l' \<noteq> 0"
    from a have "ev_slot w x = Some (l', j')" by (simp add: evs1 split: if_splits)
    from strict_fromD [OF p this c]
    show "T div 256 ^ l' < ev_scheduled_at w1 x div 256 ^ l'" by (simp add: sch1)
  qed
  show "ev_slot w1 e = None" by (simp add: evs1)
qed

lemma Execute_fields [simp]:
  "tw_now (Execute e w) = tw_now w" "tw_ticks_pending (Execute e w) = tw_ticks_pending w"
  "tw_slots (Execute e w) = tw_slots w" "ev_scheduled_at (Execute e w) = ev_scheduled_at w"
  "ev_slot (Execute e w) = ev_slot w" "executed (Execute e w) = executed w @ [e]"
  by (simp_all add: Execute_def)

lemma Execute_preds [simp]:
  "clock T (Execute e w) = clock T w" "wf_links (Execute e w) = wf_links w"
  "placed T (Execute e w) = placed T w" "strict_from m T (Execute e w) = strict_from m T w"
  "linked (Execute e w) = linked w"
  by (simp_all add: clock_def wf_links_def placed_def strict_from_def linked_def)

lemma clock_now0: "clock T w \<Longrightarrow> tw_now w 0 = T"
  by (simp add: clock_def)

lemma log_not_linked: "log_ok T w \<Longrightarrow> ev_slot w e = Some s \<Longrightarrow> e \<notin> set (executed w)"
  by (auto simp: log_ok_def)

lemma exec_step:
  assumes wf: "wf_links w" and hd: "tw_slots w (l, c) = e # es" and pl: "placed T w"
    and st: "strict_from m T w" and lg: "log_ok T w" and ck: "clock T w"
    and due: "ev_scheduled_at w e = T"
    and w2: "w2 = Execute e (w\<lparr>tw_slots := (tw_slots w)((l, c) := es),
                                 ev_slot := (ev_slot w)(e := None)\<rparr>)"
  shows "clock T w2 \<and> tw_ticks_pending w2 = tw_ticks_pending w \<and> wf_links w2
       \<and> placed T w2 \<and> strict_from m T w2 \<and> log_ok T w2 \<and> tw_slots w2 (l, c) = es
       \<and> linked w2 \<union> set (executed w2) = linked w \<union> set (executed w)
       \<and> ev_scheduled_at w2 = ev_scheduled_at w \<and> linked w2 \<subseteq> linked w"
proof -
  define w1 where "w1 = w\<lparr>tw_slots := (tw_slots w)((l, c) := es), ev_slot := (ev_slot w)(e := None)\<rparr>"
  note p = pop_head [OF wf hd w1_def]
  have w2': "w2 = Execute e w1" by (simp add: w2 w1_def)
  have el: "e \<in> linked w" using p(2) by (simp add: linked_def)
  have enl: "e \<notin> set (executed w)" using log_not_linked [OF lg p(2)] .
  have ex1: "executed w1 = executed w" and sch1: "ev_scheduled_at w1 = ev_scheduled_at w"
    and evs1: "\<And>x. ev_slot w1 x = (if x = e then None else ev_slot w x)"
    by (simp_all add: w1_def)
  have "log_ok T w2"
    using lg enl due unfolding log_ok_def w2'
    by (auto simp: ex1 sch1 evs1 sorted_append)
  moreover have "clock T w2" using ck by (simp add: w2' clock_def w1_def)
  moreover have "tw_ticks_pending w2 = tw_ticks_pending w" by (simp add: w2' w1_def)
  moreover have "tw_slots w2 (l, c) = es" by (simp add: w2' w1_def)
  moreover have "linked w2 \<union> set (executed w2) = linked w \<union> set (executed w)"
    using el by (auto simp: w2' p(4) ex1)
  moreover have "linked w2 \<subseteq> linked w" by (auto simp: w2' p(4))
  ultimately show ?thesis
    using p(3) p(5) [OF pl] p(6) [OF st] by (simp add: w2' sch1)
qed

lemma resched_step:
  assumes wf: "wf_links w" and hd: "tw_slots w (l, c) = e # es" and pl: "placed T w"
    and st: "strict_from m T w" and lg: "log_ok T w" and ck: "clock T w"
    and later: "T < ev_scheduled_at w e"
    and due: "ev_scheduled_at w e div 256 ^ l = T div 256 ^ l"
    and w1: "w1 = w\<lparr>tw_slots := (tw_slots w)((l, c) := es), ev_slot := (ev_slot w)(e := None)\<rparr>"
  shows "\<exists>w2. Schedule e ((ev_scheduled_at w1 e + TICK - tw_now w1 0) mod TICK) w1 = Some w2
       \<and> clock T w2 \<and> tw_ticks_pending w2 = tw_ticks_pending w \<and> wf_links w2
       \<and> placed T w2 \<and> strict_from m T w2 \<and> log_ok T w2 \<and> tw_slots w2 (l, c) = es
       \<and> linked w2 \<union> set (executed w2) = linked w \<union> set (executed w)
       \<and> ev_scheduled_at w2 = ev_scheduled_at w \<and> linked w2 \<subseteq> linked w
       \<and> executed w2 = executed w"
proof -
  note p = pop_head [OF wf hd w1]
  define s where "s = ev_scheduled_at w e"
  have sT: "s < TICK" using placedD [OF pl p(2)] by (simp add: s_def)
  have ck1: "clock T w1" using ck by (simp add: clock_def w1)
  have now0: "tw_now w1 0 = T" using clock_now0 [OF ck1] .
  have sch1: "ev_scheduled_at w1 = ev_scheduled_at w" by (simp add: w1)
  define D where "D = s - T"
  have D: "1 \<le> D" "T + D = s" using later by (simp_all add: D_def s_def)
  have arg: "(ev_scheduled_at w1 e + TICK - tw_now w1 0) mod TICK = D"
  proof -
    have "ev_scheduled_at w1 e + TICK - tw_now w1 0 = D + TICK"
      using later by (simp add: now0 sch1 D_def s_def)
    moreover have "D < TICK" using sT by (simp add: D_def)
    ultimately show ?thesis by simp
  qed
  from Schedule_fresh [OF ck1 p(7) D(1)] sT D(2)
  obtain l' j' where sf: "l' < kNumLevels" "j' = (s div 256 ^ l') mod 256"
    "T div 256 ^ l' < s div 256 ^ l'" "s div 256 ^ l' \<le> T div 256 ^ l' + 255"
    "Schedule e D w1 =
       Some (w1\<lparr>tw_slots := (tw_slots w1)((l', j') := e # tw_slots w1 (l', j')),
                 ev_slot := (ev_slot w1)(e := Some (l', j')),
                 ev_scheduled_at := (ev_scheduled_at w1)(e := s)\<rparr>)"
    by auto
  define w2 where "w2 = w1\<lparr>tw_slots := (tw_slots w1)((l', j') := e # tw_slots w1 (l', j')),
                 ev_slot := (ev_slot w1)(e := Some (l', j')),
                 ev_scheduled_at := (ev_scheduled_at w1)(e := s)\<rparr>"
  note lf = link_fresh [OF p(3) p(7) sf(1) sf(2) w2_def]
  have ne: "(l', j') \<noteq> (l, c)" using sf(3) due by (auto simp: s_def)
  have sl: "tw_slots w2 (l, c) = es" using ne by (auto simp: w2_def w1)
  have sch2: "ev_scheduled_at w2 = ev_scheduled_at w"
    by (simp add: w2_def sch1 s_def)
  have ex2: "executed w2 = executed w" by (simp add: w2_def w1)
  have lk: "linked w2 = linked w"
    using lf(2) p(4) p(2) by (auto simp: linked_def)
  have enl: "e \<notin> set (executed w)" using log_not_linked [OF lg p(2)] .
  have evs2: "\<And>x. x \<noteq> e \<Longrightarrow> ev_slot w2 x = ev_slot w x" by (simp add: w2_def w1)
  have evs2': "\<And>x. x \<in> set (executed w) \<Longrightarrow> ev_slot w2 x = ev_slot w x"
    using enl evs2 by metis
  have lg2: "log_ok T w2"
    using lg unfolding log_ok_def by (simp add: ex2 sch2 evs2')
  have pl2: "placed T w2"
    using lf(3) [OF p(5) [OF pl] sT] sf(3,4) by simp
  have st2: "strict_from m T w2"
    using lf(4) [OF p(6) [OF st] sf(3)] .
  have ck2: "clock T w2" using ck1 by (simp add: clock_def w2_def)
  have tp: "tw_ticks_pending w2 = tw_ticks_pending w" by (simp add: w2_def w1)
  have "Schedule e ((ev_scheduled_at w1 e + TICK - tw_now w1 0) mod TICK) w1 = Some w2"
    using sf(5) by (simp add: arg w2_def)
  then show ?thesis
    using ck2 tp lf(1) pl2 st2 lg2 sl lk sch2 ex2 by auto
qed

subsection \<open>Timer wheel: draining a slot and cascading the levels\<close>

text \<open>At a tick \<open>T\<close> that moves level \<open>l\<close>, the loop of \<^verbatim>\<open>ProcessCurrentSlot\<close> empties the
  current slot of the level: it executes the events due at \<open>T\<close> and schedules the others
  again, strictly ahead on a lower level.\<close>

lemma size_t_dec_pos: "1 \<le> c \<Longrightarrow> c < TICK \<Longrightarrow> size_t_dec c = c - 1"
proof -
  assume a: "1 \<le> c" "c < TICK"
  then obtain d where d: "c = Suc d" by (cases c) auto
  have "size_t_dec c = (d + 2 ^ 64) mod 2 ^ 64" by (simp add: size_t_dec_def d)
  also have "\<dots> = d" using a(2) by (simp add: TICK_def d)
  finally show ?thesis by (simp add: d)
qed

lemma dvd_256_of_level: "T mod 256 ^ l = 0 \<Longrightarrow> 0 < l \<Longrightarrow> T mod (256::nat) = 0"
proof -
  assume a: "T mod 256 ^ l = 0" "0 < l"
  have "(256::nat) dvd 256 ^ l" using a(2) by (simp add: dvd_power)
  moreover have "(256::nat) ^ l dvd T" using a(1) by (simp add: mod_eq_0_iff_dvd)
  ultimately show ?thesis by (meson dvd_trans mod_eq_0_iff_dvd)
qed

lemma drain_level:
  assumes "l < kNumLevels" "T mod 256 ^ l = 0" "c = (T div 256 ^ l) mod 256"
  shows "clock T w \<Longrightarrow> wf_links w \<Longrightarrow> placed T w \<Longrightarrow> strict_from (Suc l) T w \<Longrightarrow> log_ok T w
     \<Longrightarrow> length (tw_slots w (l, c)) < mx \<Longrightarrow> mx < TICK \<Longrightarrow>
     \<exists>w'. drain l c mx w = Some (True, w')
       \<and> clock T w' \<and> tw_ticks_pending w' = tw_ticks_pending w \<and> wf_links w'
       \<and> placed T w' \<and> strict_from l T w' \<and> log_ok T w'
       \<and> linked w' \<union> set (executed w') = linked w \<union> set (executed w)
       \<and> ev_scheduled_at w' = ev_scheduled_at w \<and> linked w' \<subseteq> linked w"
proof (induction "length (tw_slots w (l, c))" arbitrary: w mx)
  case 0
  then have empty: "tw_slots w (l, c) = []" by simp
  have "strict_from l T w"
  proof (rule strict_fromI)
    fix x l' j' assume a: "ev_slot w x = Some (l', j')" and b: "l \<le> l' \<or> T mod 256 ^ l' \<noteq> 0"
    show "T div 256 ^ l' < ev_scheduled_at w x div 256 ^ l'"
    proof (cases "l' = l")
      case False
      with b have "Suc l \<le> l' \<or> T mod 256 ^ l' \<noteq> 0" by auto
      from strict_fromD [OF "0.prems"(4) a this] show ?thesis .
    next
      case True
      note pd = placedD [OF "0.prems"(3) a]
      have mem: "x \<in> set (tw_slots w (l', j'))" using wf_links_slot [OF "0.prems"(2) a] by simp
      have "ev_scheduled_at w x div 256 ^ l' \<noteq> T div 256 ^ l'"
      proof
        assume "ev_scheduled_at w x div 256 ^ l' = T div 256 ^ l'"
        then have "j' = c" using pd assms(3) True by simp
        then show False using mem empty True by simp
      qed
      then show ?thesis using pd by simp
    qed
  qed
  moreover have "drain l c mx w = Some (True, w)"
    using empty by (subst drain.simps) simp
  ultimately show ?case using "0.prems" by auto
next
  case (Suc n)
  then obtain e es where hd: "tw_slots w (l, c) = e # es"
    by (cases "tw_slots w (l, c)") auto
  have len: "length es = n" using Suc.hyps(2) hd by simp
  define w1 where "w1 = w\<lparr>tw_slots := (tw_slots w)((l, c) := es), ev_slot := (ev_slot w)(e := None)\<rparr>"
  note wf = Suc.prems(2) and pl = Suc.prems(3) and st = Suc.prems(4) and lg = Suc.prems(5)
    and ck = Suc.prems(1)
  note p = pop_head [OF wf hd w1_def]
  note pd = placedD [OF pl p(2)]
  have Tlt: "T < TICK" using ck by (simp add: clock_def)
  have due: "ev_scheduled_at w e div 256 ^ l = T div 256 ^ l"
    using same_slot_due [of c "ev_scheduled_at w e" l T] pd assms(3) by simp
  have ge: "T \<le> ev_scheduled_at w e" using due_ge [OF due assms(2)] .
  have mx2: "2 \<le> mx" using Suc.prems(6) hd by simp
  have dec: "size_t_dec mx = mx - 1" "size_t_dec mx \<noteq> 0"
    using size_t_dec_pos [of mx] mx2 Suc.prems(7) by simp_all
  have now1: "tw_now w1 0 = T" using clock_now0 [OF ck] by (simp add: w1_def)
  have sch1: "ev_scheduled_at w1 e = ev_scheduled_at w e" by (simp add: w1_def)
  have ne: "tw_slots w (l, c) \<noteq> []" using hd by simp
  have via_exec: ?case if dueT: "ev_scheduled_at w e = T"
    and dr: "drain l c mx w = drain l c (mx - 1) (Execute e w1)"
  proof -
    note es = exec_step [OF wf hd pl st lg ck dueT, of "Execute e w1", unfolded w1_def [symmetric], OF refl]
    have l2: "length (tw_slots (Execute e w1) (l, c)) < mx - 1"
      using es Suc.prems(6) hd by simp
    have n2: "n = length (tw_slots (Execute e w1) (l, c))" using es len by simp
    have m2: "mx - 1 < TICK" using Suc.prems(7) by simp
    from Suc.hyps(1) [OF n2 _ _ _ _ _ l2 m2] es
    obtain w' where "drain l c (mx - 1) (Execute e w1) = Some (True, w')"
       "clock T w'" "tw_ticks_pending w' = tw_ticks_pending (Execute e w1)" "wf_links w'"
       "placed T w'" "strict_from l T w'" "log_ok T w'"
       "linked w' \<union> set (executed w') = linked (Execute e w1) \<union> set (executed (Execute e w1))"
       "ev_scheduled_at w' = ev_scheduled_at (Execute e w1)" "linked w' \<subseteq> linked (Execute e w1)"
      by blast
    then show ?thesis using es dr by auto
  qed
  show ?case
  proof (cases "0 < l")
    case True
    have T256: "T mod 256 = 0" using dvd_256_of_level [OF assms(2) True] .
    show ?thesis
    proof (cases "ev_scheduled_at w e \<le> T")
      case le: True
      then have dueT: "ev_scheduled_at w e = T" using ge by simp
      have "drain l c mx w = drain l c (mx - 1) (Execute e w1)"
        using ne p(1) True T256 dueT dec
        by (subst drain.simps) (simp add: now1 sch1)
      from via_exec [OF dueT this] show ?thesis .
    next
      case gt: False
      then have later: "T < ev_scheduled_at w e" by simp
      from resched_step [OF wf hd pl st lg ck later due w1_def]
      obtain w2 where r: "Schedule e ((ev_scheduled_at w1 e + TICK - tw_now w1 0) mod TICK) w1 = Some w2"
        "clock T w2" "tw_ticks_pending w2 = tw_ticks_pending w" "wf_links w2"
        "placed T w2" "strict_from (Suc l) T w2" "log_ok T w2" "tw_slots w2 (l, c) = es"
        "linked w2 \<union> set (executed w2) = linked w \<union> set (executed w)"
        "ev_scheduled_at w2 = ev_scheduled_at w" "linked w2 \<subseteq> linked w"
        by blast
      have dr: "drain l c mx w = drain l c mx w2"
        using ne p(1) True T256 gt r(1)
        by (subst drain.simps) (simp add: now1 sch1)
      have l2: "length (tw_slots w2 (l, c)) < mx" using r(8) Suc.prems(6) hd by simp
      have n2: "n = length (tw_slots w2 (l, c))" using r(8) len by simp
      from Suc.hyps(1) [OF n2 r(2) r(4) r(5) r(6) r(7) l2 Suc.prems(7)]
      obtain w' where "drain l c mx w2 = Some (True, w')"
       "clock T w'" "tw_ticks_pending w' = tw_ticks_pending w2" "wf_links w'"
       "placed T w'" "strict_from l T w'" "log_ok T w'"
       "linked w' \<union> set (executed w') = linked w2 \<union> set (executed w2)"
       "ev_scheduled_at w' = ev_scheduled_at w2" "linked w' \<subseteq> linked w2"
        by blast
      then show ?thesis using r dr by auto
    qed
  next
    case False
    then have l0: "l = 0" by simp
    have dueT: "ev_scheduled_at w e = T" using due l0 by simp
    have "drain l c mx w = drain l c (mx - 1) (Execute e w1)"
      using ne p(1) l0 dec
      by (subst drain.simps) simp
    from via_exec [OF dueT this] show ?thesis .
  qed
qed

lemma now_update_preds [simp]:
  "wf_links (w\<lparr>tw_now := f\<rparr>) = wf_links w"
  "placed T (w\<lparr>tw_now := f\<rparr>) = placed T w"
  "strict_from m T (w\<lparr>tw_now := f\<rparr>) = strict_from m T w"
  "log_ok T (w\<lparr>tw_now := f\<rparr>) = log_ok T w"
  "linked (w\<lparr>tw_now := f\<rparr>) = linked w"
  by (simp_all add: wf_links_def placed_def strict_from_def log_ok_def linked_def)

lemma slot_length_bound:
  assumes "wf_links w" "linked w \<subseteq> E" "finite E"
  shows "length (tw_slots w s) \<le> card E"
proof -
  have "e \<in> linked w" if "e \<in> set (tw_slots w s)" for e
    using wf_links_mem [OF assms(1) that] unfolding linked_def by simp
  then have "set (tw_slots w s) \<subseteq> linked w" by blast
  then have "card (set (tw_slots w s)) \<le> card E"
    using assms(2,3) by (meson card_mono subset_trans)
  then show ?thesis using wf_links_distinct [OF assms(1), of s] by (simp add: distinct_card)
qed

lemma succ_level_clock:
  assumes "1 \<le> T" "T mod 256 ^ k = 0"
  shows "(T - 1) div 256 ^ k + 1 = T div (256::nat) ^ k"
proof -
  have "0 < T div 256 ^ k"
    using assms by (simp add: div_greater_zero_iff mod_eq_0_iff_dvd dvd_imp_le)
  then show ?thesis using pred_div [of T "256 ^ k"] assms by simp
qed

lemma process_level:
  assumes T: "1 \<le> T" "T < TICK" and mx: "mx < TICK" and E: "finite E" "card E < mx"
  shows "l < kNumLevels \<Longrightarrow> T mod 256 ^ l = 0
     \<Longrightarrow> (\<forall>k<kNumLevels. tw_now w k = (if k \<le> l then T div 256 ^ k else (T - 1) div 256 ^ k))
     \<Longrightarrow> tw_ticks_pending w = 0 \<Longrightarrow> wf_links w \<Longrightarrow> placed T w
     \<Longrightarrow> strict_from kNumLevels T w \<Longrightarrow> log_ok T w \<Longrightarrow> linked w \<subseteq> E
     \<Longrightarrow> \<exists>w'. ProcessCurrentSlot (T div 256 ^ l) mx l w = Some (True, w')
       \<and> clock T w' \<and> tw_ticks_pending w' = 0 \<and> wf_links w'
       \<and> placed T w' \<and> strict_from l T w' \<and> log_ok T w'
       \<and> linked w' \<union> set (executed w') = linked w \<union> set (executed w)
       \<and> ev_scheduled_at w' = ev_scheduled_at w \<and> linked w' \<subseteq> linked w"
proof (induction "kNumLevels - l" arbitrary: l w)
  case 0
  then show ?case by simp
next
  case (Suc n)
  note l = Suc.prems(1) and Tl = Suc.prems(2) and now = Suc.prems(3) and tp = Suc.prems(4)
    and wf = Suc.prems(5) and pl = Suc.prems(6) and st = Suc.prems(7) and lg = Suc.prems(8)
    and lk = Suc.prems(9)
  define c where "c = (T div 256 ^ l) mod 256"
  have drain_after: ?case
    if pre: "ProcessCurrentSlot (T div 256 ^ l) mx l w = drain l c mx w2"
      "clock T w2" "tw_ticks_pending w2 = 0" "wf_links w2" "placed T w2"
      "strict_from (Suc l) T w2" "log_ok T w2"
      "linked w2 \<union> set (executed w2) = linked w \<union> set (executed w)"
      "ev_scheduled_at w2 = ev_scheduled_at w" "linked w2 \<subseteq> linked w" for w2
  proof -
    have "length (tw_slots w2 (l, c)) \<le> card E"
      using slot_length_bound [OF pre(4) _ E(1)] pre(10) lk by blast
    then have len: "length (tw_slots w2 (l, c)) < mx" using E(2) by simp
    from drain_level [OF l Tl c_def pre(2) pre(4) pre(5) pre(6) pre(7) len mx]
    obtain w' where "drain l c mx w2 = Some (True, w')"
       "clock T w'" "tw_ticks_pending w' = tw_ticks_pending w2" "wf_links w'"
       "placed T w'" "strict_from l T w'" "log_ok T w'"
       "linked w' \<union> set (executed w') = linked w2 \<union> set (executed w2)"
       "ev_scheduled_at w' = ev_scheduled_at w2" "linked w' \<subseteq> linked w2"
      by blast
    then show ?thesis using pre by auto
  qed
  show ?case
  proof (cases "c = 0 \<and> l < kMaxLevel")
    case True
    then have c0: "c = 0" and l7: "l < 7" by simp_all
    have TS: "T mod 256 ^ Suc l = 0" using slot_zero_iff [OF Tl] c0 by (simp add: c_def)
    have sl: "Suc l < kNumLevels" using l7 by simp
    have nowS: "tw_now w (Suc l) = (T - 1) div 256 ^ Suc l" using now sl by simp
    have inc: "(tw_now w (Suc l) + 1) mod TICK = T div 256 ^ Suc l"
    proof -
      have "tw_now w (Suc l) + 1 = T div 256 ^ Suc l"
        unfolding nowS using succ_level_clock [OF T(1) TS] .
      moreover have "T div 256 ^ Suc l < TICK" using T(2) by (meson div_le_dividend le_less_trans)
      ultimately show ?thesis by simp
    qed
    define w1 where "w1 = w\<lparr>tw_now := (tw_now w)(Suc l := T div 256 ^ Suc l)\<rparr>"
    have now1: "\<forall>k<kNumLevels. tw_now w1 k = (if k \<le> Suc l then T div 256 ^ k else (T - 1) div 256 ^ k)"
      using now by (auto simp: w1_def)
    have n: "n = kNumLevels - Suc l" using Suc.hyps(2) by simp
    have tp1: "tw_ticks_pending w1 = 0" using tp by (simp add: w1_def)
    from Suc.hyps(1) [OF n sl TS now1 tp1, unfolded w1_def now_update_preds, OF wf pl st lg lk]
    obtain w2 where r: "ProcessCurrentSlot (T div 256 ^ Suc l) mx (Suc l) w1 = Some (True, w2)"
       "clock T w2" "tw_ticks_pending w2 = 0" "wf_links w2"
       "placed T w2" "strict_from (Suc l) T w2" "log_ok T w2"
       "linked w2 \<union> set (executed w2) = linked w \<union> set (executed w)"
       "ev_scheduled_at w2 = ev_scheduled_at w" "linked w2 \<subseteq> linked w"
      unfolding w1_def [symmetric] by (auto simp: w1_def)
    have loop0: "Advance_loop 0 mx (Suc l) w2 = Some (True, w2)"
      by (subst Advance_loop.simps) simp
    have loop: "Advance_loop 1 mx (Suc l) w = Some (True, w2)"
      using sl r(1) inc loop0
      by (subst Advance_loop.simps) (simp add: w1_def)
    have adv: "Advance 1 mx (l + 1) w = Some (True, w2)"
      using sl tp loop by (subst Advance.simps) simp
    have "ProcessCurrentSlot (T div 256 ^ l) mx l w = drain l c mx w2"
      using l True adv by (subst ProcessCurrentSlot.simps) (simp add: c_def)
    from drain_after [OF this r(2-10)] show ?thesis .
  next
    case False
    have pcs: "ProcessCurrentSlot (T div 256 ^ l) mx l w = drain l c mx w"
      using l False by (subst ProcessCurrentSlot.simps) (auto simp: c_def)
    have nt: "T mod 256 ^ k \<noteq> 0" if "l < k" "k < kNumLevels" for k
    proof -
      from that l have "l < 7" by simp
      with False have "c \<noteq> 0" by simp
      then have "T mod 256 ^ Suc l \<noteq> 0" using slot_zero_iff [OF Tl] by (simp add: c_def)
      then show ?thesis using mod_pow_mono [of T "Suc l" k] that(1) by simp
    qed
    have ck: "clock T w"
      unfolding clock_def
    proof (intro conjI allI impI)
      show "T < TICK" using T(2) .
      fix k assume k: "k < kNumLevels"
      show "tw_now w k = T div 256 ^ k"
      proof (cases "k \<le> l")
        case True
        then show ?thesis using now k by simp
      next
        case False
        then have "tw_now w k = (T - 1) div 256 ^ k" using now k by simp
        also have "\<dots> = T div 256 ^ k"
          using pred_div [of T "256 ^ k"] T(1) nt [of k] False k by simp
        finally show ?thesis .
      qed
    qed
    have st': "strict_from (Suc l) T w"
    proof (rule strict_fromI)
      fix x l' j' assume a: "ev_slot w x = Some (l', j')" and b: "Suc l \<le> l' \<or> T mod 256 ^ l' \<noteq> 0"
      have "l' < kNumLevels" using wf_links_slot [OF wf a] by simp
      then have "T mod 256 ^ l' \<noteq> 0" using b nt [of l'] by auto
      then show "T div 256 ^ l' < ev_scheduled_at w x div 256 ^ l'"
        using strict_fromD [OF st a] by simp
    qed
    from drain_after [OF pcs ck tp wf pl st' lg] show ?thesis by simp
  qed
qed

subsection \<open>Timer wheel: the invariant over \<^verbatim>\<open>Schedule\<close> and \<^verbatim>\<open>Advance\<close>\<close>

lemma placed_succ:
  assumes "placed T w" "strict_from 0 T w"
  shows "placed (Suc T) w"
proof (rule placedI)
  fix e l j assume a: "ev_slot w e = Some (l, j)"
  note p = placedD [OF assms(1) a]
  have "T div 256 ^ l < ev_scheduled_at w e div 256 ^ l"
    using strict_fromD [OF assms(2) a] by simp
  then have "T < ev_scheduled_at w e" by (rule strict_gt)
  then have "Suc T \<le> ev_scheduled_at w e" by simp
  then have lo: "Suc T div 256 ^ l \<le> ev_scheduled_at w e div 256 ^ l" by (rule div_le_mono)
  have "T div 256 ^ l \<le> Suc T div 256 ^ l" by (rule div_le_mono) simp
  then have hi: "ev_scheduled_at w e div 256 ^ l \<le> Suc T div 256 ^ l + 255" using p by linarith
  show "ev_scheduled_at w e < TICK
        \<and> j = (ev_scheduled_at w e div 256 ^ l) mod 256
        \<and> Suc T div 256 ^ l \<le> ev_scheduled_at w e div 256 ^ l
        \<and> ev_scheduled_at w e div 256 ^ l \<le> Suc T div 256 ^ l + 255"
    using p lo hi by simp
qed

lemma strict_succ:
  assumes "strict_from 0 T w" "wf_links w"
  shows "strict_from kNumLevels (Suc T) w"
proof (rule strict_fromI)
  fix e l j assume a: "ev_slot w e = Some (l, j)"
    and b: "kNumLevels \<le> l \<or> Suc T mod 256 ^ l \<noteq> 0"
  have "l < kNumLevels" using wf_links_slot [OF assms(2) a] by simp
  with b have "Suc T mod 256 ^ l \<noteq> 0" by simp
  then have "Suc T div 256 ^ l = T div 256 ^ l"
    using pred_div [of "Suc T" "256 ^ l"] by simp
  then show "Suc T div 256 ^ l < ev_scheduled_at w e div 256 ^ l"
    using strict_fromD [OF assms(1) a] by simp
qed

lemma log_ok_mono: "log_ok T w \<Longrightarrow> T \<le> T' \<Longrightarrow> log_ok T' w"
  unfolding log_ok_def by fastforce

lemma wheel_invD:
  assumes "wheel_inv E T w"
  shows "clock T w" "tw_ticks_pending w = 0" "wf_links w" "placed T w" "strict_from 0 T w"
    "log_ok T w" "linked w \<subseteq> E"
  using assms by (simp_all add: wheel_inv_def)

lemma tick_step:
  assumes inv: "wheel_inv E T w" and T: "Suc T < TICK" and E: "finite E" "card E < mx"
    and mx: "mx < TICK"
  shows "\<exists>w'. ProcessCurrentSlot (Suc T) mx 0 (w\<lparr>tw_now := (tw_now w)(0 := Suc T)\<rparr>) = Some (True, w')
     \<and> wheel_inv E (Suc T) w'
     \<and> linked w' \<union> set (executed w') = linked w \<union> set (executed w)
     \<and> ev_scheduled_at w' = ev_scheduled_at w"
proof -
  note i = wheel_invD [OF inv]
  define w1 where "w1 = w\<lparr>tw_now := (tw_now w)(0 := Suc T)\<rparr>"
  have now1: "\<forall>k<kNumLevels. tw_now w1 k = (if k \<le> 0 then Suc T div 256 ^ k else (Suc T - 1) div 256 ^ k)"
    using i(1) by (auto simp: w1_def clock_def)
  have tp1: "tw_ticks_pending w1 = 0" using i(2) by (simp add: w1_def)
  have wf1: "wf_links w1" using i(3) by (simp add: w1_def)
  have pl1: "placed (Suc T) w1" using placed_succ [OF i(4) i(5)] by (simp add: w1_def)
  have st1: "strict_from kNumLevels (Suc T) w1" using strict_succ [OF i(5) i(3)] by (simp add: w1_def)
  have lg1: "log_ok (Suc T) w1" using log_ok_mono [OF i(6), of "Suc T"] by (simp add: w1_def)
  have lk1: "linked w1 \<subseteq> E" using i(7) by (simp add: w1_def)
  have one: "1 \<le> Suc T" by simp
  have l0: "0 < kNumLevels" by simp
  have m0: "Suc T mod 256 ^ 0 = 0" by simp
  from process_level [OF one T mx E l0 m0 now1 tp1 wf1 pl1 st1 lg1 lk1]
  obtain w' where r: "ProcessCurrentSlot (Suc T div 256 ^ 0) mx 0 w1 = Some (True, w')"
       "clock (Suc T) w'" "tw_ticks_pending w' = 0" "wf_links w'"
       "placed (Suc T) w'" "strict_from 0 (Suc T) w'" "log_ok (Suc T) w'"
       "linked w' \<union> set (executed w') = linked w1 \<union> set (executed w1)"
       "ev_scheduled_at w' = ev_scheduled_at w1" "linked w' \<subseteq> linked w1"
    by blast
  have "linked w' \<subseteq> E" using r(10) lk1 by blast
  then have "wheel_inv E (Suc T) w'" using r(2-7) by (simp add: wheel_inv_def)
  moreover have "ProcessCurrentSlot (Suc T) mx 0 w1 = Some (True, w')" using r(1) by simp
  ultimately show ?thesis using r(8,9) unfolding w1_def [symmetric] by (auto simp: w1_def)
qed

lemma Advance_loop_ok:
  assumes E: "finite E" "card E < mx" and mx: "mx < TICK"
  shows "wheel_inv E T w \<Longrightarrow> T + d < TICK \<Longrightarrow>
     \<exists>w'. Advance_loop d mx 0 w = Some (True, w') \<and> wheel_inv E (T + d) w'
       \<and> linked w' \<union> set (executed w') = linked w \<union> set (executed w)
       \<and> ev_scheduled_at w' = ev_scheduled_at w"
proof (induction d arbitrary: T w)
  case 0
  then show ?case by (subst Advance_loop.simps) simp
next
  case (Suc d)
  have T: "Suc T < TICK" using Suc.prems(2) by simp
  have n0: "tw_now w 0 = T" using wheel_invD(1) [OF Suc.prems(1)] by (rule clock_now0)
  from tick_step [OF Suc.prems(1) T E mx]
  obtain w1 where r: "ProcessCurrentSlot (Suc T) mx 0 (w\<lparr>tw_now := (tw_now w)(0 := Suc T)\<rparr>) = Some (True, w1)"
     "wheel_inv E (Suc T) w1"
     "linked w1 \<union> set (executed w1) = linked w \<union> set (executed w)"
     "ev_scheduled_at w1 = ev_scheduled_at w"
    by blast
  have "Suc T + d < TICK" using Suc.prems(2) by simp
  from Suc.IH [OF r(2) this]
  obtain w' where r': "Advance_loop d mx 0 w1 = Some (True, w')" "wheel_inv E (Suc T + d) w'"
     "linked w' \<union> set (executed w') = linked w1 \<union> set (executed w1)"
     "ev_scheduled_at w' = ev_scheduled_at w1"
    by blast
  have "Advance_loop (Suc d) mx 0 w = Some (True, w')"
    using r(1) r'(1) T n0 by (subst Advance_loop.simps) simp
  then show ?case using r' r by simp
qed

lemma Advance_ok:
  assumes "finite E" "card E < mx" "mx < TICK" "wheel_inv E T w" "0 < d" "T + d < TICK"
  shows "\<exists>w'. Advance d mx 0 w = Some (True, w') \<and> wheel_inv E (T + d) w'
       \<and> linked w' \<union> set (executed w') = linked w \<union> set (executed w)
       \<and> ev_scheduled_at w' = ev_scheduled_at w"
proof -
  have "Advance d mx 0 w = Advance_loop d mx 0 w"
    using assms(5) wheel_invD(2) [OF assms(4)] by (subst Advance.simps) simp
  then show ?thesis using Advance_loop_ok [OF assms(1,2,3,4,6)] by simp
qed

lemma advance_all_ok:
  assumes E: "finite E" "card E < mx" and mx: "mx < TICK"
  shows "wheel_inv E T w \<Longrightarrow> \<forall>d \<in> set ds. 0 < d \<Longrightarrow> T + sum_list ds < TICK \<Longrightarrow>
     \<exists>w'. advance_all ds mx w = Some (True, w') \<and> wheel_inv E (T + sum_list ds) w'
       \<and> linked w' \<union> set (executed w') = linked w \<union> set (executed w)
       \<and> ev_scheduled_at w' = ev_scheduled_at w"
proof (induction ds arbitrary: T w)
  case Nil
  then show ?case by simp
next
  case (Cons d ds)
  have d: "0 < d" "T + d < TICK" using Cons.prems(2,3) by simp_all
  from Advance_ok [OF E mx Cons.prems(1) d]
  obtain w1 where r: "Advance d mx 0 w = Some (True, w1)" "wheel_inv E (T + d) w1"
     "linked w1 \<union> set (executed w1) = linked w \<union> set (executed w)"
     "ev_scheduled_at w1 = ev_scheduled_at w"
    by blast
  have "\<forall>d \<in> set ds. 0 < d" "T + d + sum_list ds < TICK" using Cons.prems(2,3) by simp_all
  from Cons.IH [OF r(2) this]
  obtain w' where r': "advance_all ds mx w1 = Some (True, w')"
     "wheel_inv E (T + d + sum_list ds) w'"
     "linked w' \<union> set (executed w') = linked w1 \<union> set (executed w1)"
     "ev_scheduled_at w' = ev_scheduled_at w1"
    by blast
  have "advance_all (d # ds) mx w = Some (True, w')" using r(1) r'(1) by simp
  moreover have "T + d + sum_list ds = T + sum_list (d # ds)" by simp
  ultimately show ?case using r(3,4) r'(2,3,4) by (simp add: add.assoc)
qed

lemma pow_256: "(2::nat) ^ (kWidthBits * i) = 256 ^ i"
  unfolding kWidthBits_def power_mult by simp

lemma new_inv:
  assumes "t0 < TICK"
  shows "wheel_inv E t0 (TimerWheel_new t0)"
  using assms
  by (simp add: wheel_inv_def TimerWheel_new_def clock_def wf_links_def placed_def
      strict_from_def log_ok_def linked_def pow_256)

lemma Schedule_inv:
  assumes inv: "wheel_inv E T w" and fresh: "ev_slot w e = None" "e \<notin> set (executed w)"
    and D: "1 \<le> D" "T + D < TICK" and e: "e \<in> E"
  shows "\<exists>w'. Schedule e D w = Some w' \<and> wheel_inv E T w'
     \<and> linked w' = insert e (linked w) \<and> executed w' = executed w
     \<and> ev_scheduled_at w' = (ev_scheduled_at w)(e := T + D)"
proof -
  note i = wheel_invD [OF inv]
  from Schedule_fresh [OF i(1) fresh(1) D]
  obtain l j where s: "l < kNumLevels" "j = ((T + D) div 256 ^ l) mod 256"
      "T div 256 ^ l < (T + D) div 256 ^ l" "(T + D) div 256 ^ l \<le> T div 256 ^ l + 255"
      "Schedule e D w =
               Some (w\<lparr>tw_slots := (tw_slots w)((l, j) := e # tw_slots w (l, j)),
                        ev_slot := (ev_slot w)(e := Some (l, j)),
                        ev_scheduled_at := (ev_scheduled_at w)(e := T + D)\<rparr>)"
    by blast
  define w' where "w' = w\<lparr>tw_slots := (tw_slots w)((l, j) := e # tw_slots w (l, j)),
                        ev_slot := (ev_slot w)(e := Some (l, j)),
                        ev_scheduled_at := (ev_scheduled_at w)(e := T + D)\<rparr>"
  note lf = link_fresh [OF i(3) fresh(1) s(1) s(2) w'_def]
  have le: "T div 256 ^ l \<le> (T + D) div 256 ^ l" using s(3) by simp
  have pl: "placed T w'" using lf(3) [OF i(4) D(2) le s(4)] .
  have st: "strict_from 0 T w'" using lf(4) [OF i(5) s(3)] .
  have ck: "clock T w'" using i(1) by (simp add: clock_def w'_def)
  have tp: "tw_ticks_pending w' = 0" using i(2) by (simp add: w'_def)
  have mp: "map (ev_scheduled_at w') (executed w') = map (ev_scheduled_at w) (executed w)"
    using fresh(2) by (auto simp: w'_def)
  have ex: "executed w' = executed w" by (simp add: w'_def)
  have lg: "log_ok T w'"
    unfolding log_ok_def mp unfolding ex
  proof (intro conjI ballI)
    show "distinct (executed w)" "sorted (map (ev_scheduled_at w) (executed w))"
      using i(6) by (simp_all add: log_ok_def)
    fix x assume x: "x \<in> set (executed w)"
    then have "x \<noteq> e" using fresh(2) by blast
    then show "ev_slot w' x = None" "ev_scheduled_at w' x \<le> T"
      using i(6) x by (simp_all add: log_ok_def w'_def)
  qed
  have lk: "linked w' \<subseteq> E" using lf(2) i(7) e by simp
  have "wheel_inv E T w'" using ck tp lf(1) pl st lg lk by (simp add: wheel_inv_def)
  moreover have "Schedule e D w = Some w'" using s(5) by (simp add: w'_def)
  moreover have "executed w' = executed w" "ev_scheduled_at w' = (ev_scheduled_at w)(e := T + D)"
    by (simp_all add: w'_def)
  ultimately show ?thesis using lf(2) by blast
qed

lemma schedule_all_ok:
  shows "wheel_inv E T w \<Longrightarrow> executed w = [] \<Longrightarrow> distinct (map fst evs)
     \<Longrightarrow> \<forall>(e, d) \<in> set evs. e \<in> E \<and> ev_slot w e = None \<and> 1 \<le> d \<and> T + d < TICK
     \<Longrightarrow> \<exists>w'. schedule_all evs w = Some w' \<and> wheel_inv E T w' \<and> executed w' = []
          \<and> linked w' = linked w \<union> fst ` set evs
          \<and> (\<forall>(e, d) \<in> set evs. ev_scheduled_at w' e = T + d)
          \<and> (\<forall>e. e \<notin> fst ` set evs \<longrightarrow> ev_scheduled_at w' e = ev_scheduled_at w e)"
proof (induction evs arbitrary: w)
  case Nil
  then show ?case by simp
next
  case (Cons p evs)
  obtain e d where p: "p = (e, d)" by (cases p)
  have a: "e \<in> E" "ev_slot w e = None" "1 \<le> d" "T + d < TICK"
    using Cons.prems(4) by (simp_all add: p)
  have ne: "e \<notin> set (executed w)" using Cons.prems(2) by simp
  from Schedule_inv [OF Cons.prems(1) a(2) ne a(3,4,1)]
  obtain w1 where r: "Schedule e d w = Some w1" "wheel_inv E T w1"
     "linked w1 = insert e (linked w)" "executed w1 = executed w"
     "ev_scheduled_at w1 = (ev_scheduled_at w)(e := T + d)"
    by blast
  have ex1: "executed w1 = []" using r(4) Cons.prems(2) by simp
  have dis: "distinct (map fst evs)" and enot: "e \<notin> fst ` set evs"
    using Cons.prems(3) by (simp_all add: p)
  have fresh1: "\<forall>(x, y) \<in> set evs. x \<in> E \<and> ev_slot w1 x = None \<and> 1 \<le> y \<and> T + y < TICK"
  proof (clarify)
    fix x y assume m: "(x, y) \<in> set evs"
    then have "x \<noteq> e" using enot by force
    moreover have "x \<notin> linked w" using Cons.prems(4) m unfolding linked_def by auto
    ultimately have "x \<notin> linked w1" using r(3) by simp
    then have "ev_slot w1 x = None" unfolding linked_def by blast
    then show "x \<in> E \<and> ev_slot w1 x = None \<and> 1 \<le> y \<and> T + y < TICK"
      using Cons.prems(4) m by auto
  qed
  from Cons.IH [OF r(2) ex1 dis fresh1]
  obtain w' where r': "schedule_all evs w1 = Some w'" "wheel_inv E T w'" "executed w' = []"
     "linked w' = linked w1 \<union> fst ` set evs"
     "\<forall>(e, d) \<in> set evs. ev_scheduled_at w' e = T + d"
     "\<forall>e. e \<notin> fst ` set evs \<longrightarrow> ev_scheduled_at w' e = ev_scheduled_at w1 e"
    by blast
  have s: "schedule_all (p # evs) w = Some w'" using r(1) r'(1) by (simp add: p)
  have se: "ev_scheduled_at w' e = T + d" using r'(6) enot r(5) by simp
  have c1: "linked w' = linked w \<union> fst ` set (p # evs)" using r'(4) r(3) by (simp add: p)
  have c2: "\<forall>(x, y) \<in> set (p # evs). ev_scheduled_at w' x = T + y"
    using r'(5) se by (simp add: p)
  have c3: "\<forall>x. x \<notin> fst ` set (p # evs) \<longrightarrow> ev_scheduled_at w' x = ev_scheduled_at w x"
    using r'(6) r(5) by (simp add: p)
  show ?case
    by (rule exI [of _ w']) (intro conjI s r'(2) r'(3) c1 c2 c3)
qed

lemma Relink_sched [simp]: "ev_scheduled_at (Relink e ns w) = ev_scheduled_at w"
  by (simp add: Relink_def Let_def split: option.splits)



lemma SetScheduleAt_wf [simp]: "wf_links (SetScheduleAt e t w) = wf_links w"
  by (simp add: SetScheduleAt_def wf_links_def)

lemma SetScheduleAt_fields [simp]:
  "tw_now (SetScheduleAt e t w) = tw_now w"
  "ev_slot (SetScheduleAt e t w) = ev_slot w"
  "tw_slots (SetScheduleAt e t w) = tw_slots w"
  "ev_scheduled_at (SetScheduleAt e t w) = (ev_scheduled_at w)(e := t)"
  by (simp_all add: SetScheduleAt_def)



lemma wheel_run:
  assumes dis: "distinct (map fst evs)"
    and evs: "\<forall>(e, d) \<in> set evs. 0 < d \<and> t0 + d < TICK"
    and ds: "\<forall>d \<in> set ds. 0 < d" and fin: "t0 + sum_list ds < TICK"
    and mx: "length evs < mx" "mx < TICK"
  shows "\<exists>w1 w2. schedule_all evs (TimerWheel_new t0) = Some w1
      \<and> advance_all ds mx w1 = Some (True, w2)
      \<and> wheel_inv (fst ` set evs) (t0 + sum_list ds) w2
      \<and> linked w2 \<union> set (executed w2) = fst ` set evs
      \<and> (\<forall>(e, d) \<in> set evs. ev_scheduled_at w2 e = t0 + d)"
proof -
  define E where "E = fst ` set evs"
  have E: "finite E" "card E < mx"
    using mx(1) distinct_card [OF dis] by (simp_all add: E_def)
  have t0: "t0 < TICK" using fin by simp
  have inv0: "wheel_inv E t0 (TimerWheel_new t0)" by (rule new_inv [OF t0])
  have ex0: "executed (TimerWheel_new t0) = []" by (simp add: TimerWheel_new_def)
  have lk0: "linked (TimerWheel_new t0) = {}" by (simp add: TimerWheel_new_def linked_def)
  have fresh: "\<forall>(e, d) \<in> set evs. e \<in> E \<and> ev_slot (TimerWheel_new t0) e = None \<and> 1 \<le> d \<and> t0 + d < TICK"
    using evs by (force simp: E_def TimerWheel_new_def)
  from schedule_all_ok [OF inv0 ex0 dis fresh]
  obtain w1 where r: "schedule_all evs (TimerWheel_new t0) = Some w1" "wheel_inv E t0 w1"
     "executed w1 = []" "linked w1 = linked (TimerWheel_new t0) \<union> fst ` set evs"
     "\<forall>(e, d) \<in> set evs. ev_scheduled_at w1 e = t0 + d"
    by blast
  from advance_all_ok [OF E mx(2) r(2) ds fin]
  obtain w2 where r': "advance_all ds mx w1 = Some (True, w2)"
     "wheel_inv E (t0 + sum_list ds) w2"
     "linked w2 \<union> set (executed w2) = linked w1 \<union> set (executed w1)"
     "ev_scheduled_at w2 = ev_scheduled_at w1"
    by blast
  have c: "linked w2 \<union> set (executed w2) = fst ` set evs"
    using r'(3) r(3,4) lk0 by simp
  have s: "\<forall>(e, d) \<in> set evs. ev_scheduled_at w2 e = t0 + d"
    using r(5) r'(4) by simp
  show ?thesis
    using r(1) r'(1) r'(2) c s unfolding E_def by blast
qed

lemma inv_linked_future:
  assumes "wheel_inv E T w" "e \<in> linked w"
  shows "T < ev_scheduled_at w e"
proof -
  obtain l j where a: "ev_slot w e = Some (l, j)" using assms(2) by (auto simp: linked_def)
  have "T div 256 ^ l < ev_scheduled_at w e div 256 ^ l"
    using strict_fromD [OF wheel_invD(5) [OF assms(1)] a] by simp
  then show ?thesis by (rule strict_gt)
qed

lemma inv_executed:
  assumes "wheel_inv E T w"
  shows "distinct (executed w)" "sorted (map (ev_scheduled_at w) (executed w))"
    "e \<in> set (executed w) \<Longrightarrow> ev_slot w e = None \<and> ev_scheduled_at w e \<le> T"
  using wheel_invD(6) [OF assms] by (auto simp: log_ok_def)



subsection \<open>Timer ordering\<close>

text \<open>
  Claim C1. Events with distinct identities are scheduled on a fresh wheel at tick \<open>t0\<close>
  with positive deltas, and the wheel is advanced by a series of calls of \<^verbatim>\<open>Advance\<close>
  with positive deltas, no tick beyond the range of \<^verbatim>\<open>Tick\<close>, and \<^verbatim>\<open>max_execute\<close> above the
  number of events (as its default, the largest \<^verbatim>\<open>size_t\<close>, is). Then every call returns
  true, the events executed are exactly those scheduled at or before the tick reached,
  each once, and they are executed in non-decreasing order of their scheduled ticks
  \<open>t0 + d\<close>: an event scheduled for tick \<open>X\<close> runs before any event scheduled for \<open>X + 1\<close>.
\<close>

theorem timer_ordering:
  assumes "distinct (map fst evs)"
    and "\<forall>(e, d) \<in> set evs. 0 < d \<and> t0 + d < TICK"
    and "\<forall>d \<in> set ds. 0 < d" and "t0 + sum_list ds < TICK"
    and "length evs < mx" and "mx < TICK"
  shows "\<exists>w1 w2. schedule_all evs (TimerWheel_new t0) = Some w1
      \<and> advance_all ds mx w1 = Some (True, w2)
      \<and> tw_now w2 0 = t0 + sum_list ds
      \<and> (\<forall>(e, d) \<in> set evs. ev_scheduled_at w2 e = t0 + d)
      \<and> set (executed w2) = {e \<in> fst ` set evs. ev_scheduled_at w2 e \<le> t0 + sum_list ds}
      \<and> distinct (executed w2)
      \<and> sorted (map (ev_scheduled_at w2) (executed w2))"
proof -
  from wheel_run [OF assms]
  obtain w1 w2 where r: "schedule_all evs (TimerWheel_new t0) = Some w1"
      "advance_all ds mx w1 = Some (True, w2)"
      "wheel_inv (fst ` set evs) (t0 + sum_list ds) w2"
      "linked w2 \<union> set (executed w2) = fst ` set evs"
      "\<forall>(e, d) \<in> set evs. ev_scheduled_at w2 e = t0 + d"
    by blast
  have now: "tw_now w2 0 = t0 + sum_list ds"
    using wheel_invD(1) [OF r(3)] by (rule clock_now0)
  have sub: "set (executed w2) \<subseteq> {e \<in> fst ` set evs. ev_scheduled_at w2 e \<le> t0 + sum_list ds}"
    using inv_executed(3) [OF r(3)] r(4) by blast
  have sup: "{e \<in> fst ` set evs. ev_scheduled_at w2 e \<le> t0 + sum_list ds} \<subseteq> set (executed w2)"
  proof
    fix e assume "e \<in> {e \<in> fst ` set evs. ev_scheduled_at w2 e \<le> t0 + sum_list ds}"
    then have e: "e \<in> fst ` set evs" "ev_scheduled_at w2 e \<le> t0 + sum_list ds" by simp_all
    have "e \<notin> linked w2" using inv_linked_future [OF r(3), of e] e(2) by auto
    then show "e \<in> set (executed w2)" using r(4) e(1) by blast
  qed
  have "set (executed w2) = {e \<in> fst ` set evs. ev_scheduled_at w2 e \<le> t0 + sum_list ds}"
    using sub sup by (rule subset_antisym)
  then show ?thesis
    using r(1,2,5) now inv_executed(1,2) [OF r(3)] by blast
qed

text \<open>Three events, two of them on level 1 and due at the same tick, fired in order by
  one call of \<^verbatim>\<open>Advance\<close>.\<close>

theorem timer_ordering_witness:
  "distinct (map fst [(1::nat, 300::nat), (2, 500), (3, 500)])
   \<and> (\<exists>w1 w2. schedule_all [(1, 300), (2, 500), (3, 500)] (TimerWheel_new 0) = Some w1
      \<and> advance_all [1000] 4 w1 = Some (True, w2)
      \<and> tw_now w2 0 = 0 + sum_list [1000]
      \<and> (\<forall>(e, d) \<in> set [(1, 300), (2, 500), (3, 500)]. ev_scheduled_at w2 e = 0 + d)
      \<and> set (executed w2)
          = {e \<in> fst ` set [(1, 300), (2, 500), (3, 500)]. ev_scheduled_at w2 e \<le> 0 + sum_list [1000]}
      \<and> distinct (executed w2)
      \<and> sorted (map (ev_scheduled_at w2) (executed w2)))"
  using timer_ordering [of "[(1, 300), (2, 500), (3, 500)]" 0 "[1000]" 4]
  by (simp add: TICK_def)


subsection \<open>Timer liveness\<close>



subsection \<open>Slot placement\<close>




end
